theory Spec2Isabelle
  imports Complex_Main "HOL-Library.Log_Nat"
begin

section \<open>JavaScript numbers\<close>

text \<open>
  A JavaScript \<^verbatim>\<open>number\<close> is an IEEE 754 binary64 value: NaN, an infinity, or a finite value,
  held here as the rational it denotes. The two zeros are not distinguished: the code below
  divides only by non-zero constants and by a total that it has compared with zero, and nothing
  else in it observes the sign of a zero. An optional field (\<^verbatim>\<open>weight?: number\<close>) is an
  \<^typ>\<open>'a option\<close>, \<^verbatim>\<open>undefined\<close> being \<^const>\<open>None\<close>.
\<close>

datatype number = NaN | PInf | NInf | Fin rat

text \<open>
  Rounding to the nearest integer, ties to the even one: the rounding of the significand.
\<close>

definition rhe :: "rat \<Rightarrow> int" where
  "rhe t =
     (let f = \<lfloor>t\<rfloor>; d = t - of_int f in
      if d < 1 / 2 then f else if 1 / 2 < d then f + 1 else if even f then f else f + 1)"

text \<open>
  Every finite binary64 value is an integer multiple of \<^verbatim>\<open>2^-1074\<close>. \<open>rnd_scaled\<close> rounds a
  rational \<open>y\<close>, given in units of \<^verbatim>\<open>2^-1074\<close>, to 53 significant bits: with \<open>n\<close> the
  number of bits of the integer part of \<open>\<bar>y\<bar>\<close>, the quantum is \<open>2 ^ (n - 53)\<close>, and \<open>1\<close> in
  the subnormal range. \<open>rnd\<close> is the rounding of a real result to a number: round to nearest,
  ties to even, overflow to an infinity.
\<close>

definition rnd_scaled :: "rat \<Rightarrow> int" where
  "rnd_scaled y = (let s = nat (bitlen \<lfloor>\<bar>y\<bar>\<rfloor> - 53) in rhe (y / 2 ^ s) * 2 ^ s)"

definition rnd :: "rat \<Rightarrow> number" where
  "rnd x =
     (let r = rnd_scaled (x * 2 ^ 1074) in
      if 2 ^ 2098 \<le> r then PInf
      else if r \<le> - (2 ^ 2098) then NInf
      else Fin (of_int r / 2 ^ 1074))"

text \<open>
  The arithmetic operators \<^verbatim>\<open>+ - * /\<close> of IEEE 754: the exact result, rounded; the special
  cases of the infinities and of NaN.
\<close>

fun fneg :: "number \<Rightarrow> number" where
  "fneg (Fin a) = Fin (- a)"
| "fneg PInf = NInf"
| "fneg NInf = PInf"
| "fneg NaN = NaN"

fun fadd :: "number \<Rightarrow> number \<Rightarrow> number" where
  "fadd (Fin a) (Fin b) = rnd (a + b)"
| "fadd NaN _ = NaN"
| "fadd _ NaN = NaN"
| "fadd PInf NInf = NaN"
| "fadd NInf PInf = NaN"
| "fadd PInf _ = PInf"
| "fadd _ PInf = PInf"
| "fadd NInf _ = NInf"
| "fadd _ NInf = NInf"

definition fsub :: "number \<Rightarrow> number \<Rightarrow> number" where
  "fsub a b = fadd a (fneg b)"

fun fmul :: "number \<Rightarrow> number \<Rightarrow> number" where
  "fmul (Fin a) (Fin b) = rnd (a * b)"
| "fmul NaN _ = NaN"
| "fmul _ NaN = NaN"
| "fmul PInf (Fin b) = (if b = 0 then NaN else if 0 < b then PInf else NInf)"
| "fmul NInf (Fin b) = (if b = 0 then NaN else if 0 < b then NInf else PInf)"
| "fmul (Fin a) PInf = (if a = 0 then NaN else if 0 < a then PInf else NInf)"
| "fmul (Fin a) NInf = (if a = 0 then NaN else if 0 < a then NInf else PInf)"
| "fmul PInf PInf = PInf"
| "fmul NInf NInf = PInf"
| "fmul PInf NInf = NInf"
| "fmul NInf PInf = NInf"

fun fdiv :: "number \<Rightarrow> number \<Rightarrow> number" where
  "fdiv (Fin a) (Fin b) =
     (if b = 0 then (if a = 0 then NaN else if 0 < a then PInf else NInf) else rnd (a / b))"
| "fdiv NaN _ = NaN"
| "fdiv _ NaN = NaN"
| "fdiv PInf (Fin b) = (if 0 \<le> b then PInf else NInf)"
| "fdiv NInf (Fin b) = (if 0 \<le> b then NInf else PInf)"
| "fdiv (Fin a) PInf = Fin 0"
| "fdiv (Fin a) NInf = Fin 0"
| "fdiv PInf PInf = NaN"
| "fdiv NInf NInf = NaN"
| "fdiv PInf NInf = NaN"
| "fdiv NInf PInf = NaN"

text \<open>
  The comparisons \<^verbatim>\<open><\<close>, \<^verbatim>\<open>===\<close> and \<^verbatim>\<open><=\<close>; \<^verbatim>\<open>a > b\<close> is \<open>num_lt b a\<close> and
  \<^verbatim>\<open>a >= b\<close> is \<open>num_le b a\<close>. Every comparison with NaN is false.
\<close>

fun num_lt :: "number \<Rightarrow> number \<Rightarrow> bool" where
  "num_lt (Fin a) (Fin b) = (a < b)"
| "num_lt NInf (Fin b) = True"
| "num_lt NInf PInf = True"
| "num_lt (Fin a) PInf = True"
| "num_lt _ _ = False"

fun num_eq :: "number \<Rightarrow> number \<Rightarrow> bool" where
  "num_eq (Fin a) (Fin b) = (a = b)"
| "num_eq PInf PInf = True"
| "num_eq NInf NInf = True"
| "num_eq _ _ = False"

definition num_le :: "number \<Rightarrow> number \<Rightarrow> bool" where
  "num_le a b = (num_lt a b \<or> num_eq a b)"

text \<open>
  \<^verbatim>\<open>Math.floor\<close>, \<^verbatim>\<open>Math.round\<close> (half-way cases towards plus infinity) and
  \<^verbatim>\<open>Math.max\<close> are exact; \<^verbatim>\<open>x || 0\<close> replaces the falsy numbers NaN and zero by zero.
\<close>

fun math_floor :: "number \<Rightarrow> number" where
  "math_floor (Fin x) = Fin (of_int \<lfloor>x\<rfloor>)"
| "math_floor v = v"

fun math_round :: "number \<Rightarrow> number" where
  "math_round (Fin x) = Fin (of_int \<lfloor>x + 1 / 2\<rfloor>)"
| "math_round v = v"

definition math_max :: "number \<Rightarrow> number \<Rightarrow> number" where
  "math_max a b = (if a = NaN \<or> b = NaN then NaN else if num_lt a b then b else a)"

definition or_zero :: "number \<Rightarrow> number" where
  "or_zero v = (if v = NaN then Fin 0 else v)"

text \<open>
  A finite number is an integer multiple of \<^verbatim>\<open>2^-1074\<close>; \<open>on_grid\<close> says so of a
  value, the infinities and NaN apart. Every rounded result is on this grid.
\<close>

definition on_grid :: "number \<Rightarrow> bool" where
  "on_grid v = (case v of Fin a \<Rightarrow> a * 2 ^ 1074 = of_int \<lfloor>a * 2 ^ 1074\<rfloor> | _ \<Rightarrow> True)"

section \<open>LiftGraph: plate model, weight normaliser and progression engine\<close>

text \<open>
  The functions of \<^verbatim>\<open>src/liftgraph/src/App.tsx\<close> are embedded as HOL functions over the
  numbers above. A decimal literal of the source denotes the nearest binary64 value:
  \<^verbatim>\<open>0.2\<close> is \<open>rnd (1 / 5)\<close>, \<^verbatim>\<open>1e-9\<close> is \<open>rnd (1 / 10 ^ 9)\<close>; integers and \<^verbatim>\<open>0.5\<close>,
  \<^verbatim>\<open>2.5\<close> are binary64 values themselves.
\<close>

subsection \<open>Types\<close>

datatype Equipment = Db | Barbell | Machine | Cable | Bodyweight

record RepScheme =
  workRangeMin :: number
  workRangeMax :: number
  progressMinClean :: number
  progressMaxClean :: number
  dirtyPenalty :: number
  maxDirtyRatioToProgress :: number

record ExerciseSettings =
  ex_id :: string
  ex_name :: string
  equipment :: Equipment
  repScheme :: RepScheme
  dbIncrementPerHand :: number
  barbellIncrementPerSide :: number
  otherIncrementTotal :: number
  barWeight :: number

text \<open>\<^verbatim>\<open>type Plate = 45 | 35 | 25 | 10 | 5 | 2.5\<close>; a \<^verbatim>\<open>Record<Plate, number>\<close> is a
  total function from the six denominations.\<close>

datatype Plate = P45 | P35 | P25 | P10 | P5 | P2_5

fun plate_value :: "Plate \<Rightarrow> number" where
  "plate_value P45 = Fin 45"
| "plate_value P35 = Fin 35"
| "plate_value P25 = Fin 25"
| "plate_value P10 = Fin 10"
| "plate_value P5 = Fin 5"
| "plate_value P2_5 = Fin (5 / 2)"

type_synonym PlateCounts = "Plate \<Rightarrow> number"

datatype SetKind = Normal | Drop

record SetEntry =
  set_id :: string
  exerciseId :: string
  kind :: "SetKind option"
  parentSetId :: "string option"
  weight :: "number option"
  barbellPlatesPerSide :: "PlateCounts option"
  cleanReps :: number
  dirtyReps :: number
  set_notes :: "string option"
  createdAt :: number

subsection \<open>Seed data helper\<close>

definition mkEx :: "string \<Rightarrow> string \<Rightarrow> Equipment \<Rightarrow> ExerciseSettings" where
  "mkEx i n e =
     \<lparr> ex_id = i, ex_name = n, equipment = e,
       repScheme = \<lparr> workRangeMin = Fin 5, workRangeMax = Fin 10, progressMinClean = Fin 10,
                     progressMaxClean = Fin 12, dirtyPenalty = Fin (1 / 2),
                     maxDirtyRatioToProgress = rnd (1 / 5) \<rparr>,
       dbIncrementPerHand = Fin 5, barbellIncrementPerSide = Fin 10,
       otherIncrementTotal = Fin 5, barWeight = Fin 45 \<rparr>"

subsection \<open>Plate model\<close>

definition PLATES :: "Plate list" where
  "PLATES = [P45, P35, P25, P10, P5, P2_5]"

definition emptyPlateCounts :: PlateCounts where
  "emptyPlateCounts = (\<lambda>_. Fin 0)"

text \<open>\<^verbatim>\<open>PLATES.reduce((sum, p) => sum + p * (plates[p] || 0), 0)\<close>.\<close>

definition sidePlateWeight :: "PlateCounts \<Rightarrow> number" where
  "sidePlateWeight plates =
     foldl (\<lambda>sum p. fadd sum (fmul (plate_value p) (or_zero (plates p)))) (Fin 0) PLATES"

definition platesPerSideToTotal :: "PlateCounts \<Rightarrow> number \<Rightarrow> number" where
  "platesPerSideToTotal plates bw =
     (let side = sidePlateWeight plates in fadd bw (fmul side (Fin 2)))"

definition addPlateCounts :: "PlateCounts \<Rightarrow> PlateCounts \<Rightarrow> PlateCounts" where
  "addPlateCounts a b =
     fold (\<lambda>p out. out(p := fadd (or_zero (a p)) (or_zero (b p)))) PLATES emptyPlateCounts"

text \<open>\<^verbatim>\<open>Math.round(x * 2) / 2\<close>, the rounding to half units used twice below.\<close>

definition half_round :: "number \<Rightarrow> number" where
  "half_round x = fdiv (math_round (fmul x (Fin 2))) (Fin 2)"

text \<open>One iteration of the loop of \<^verbatim>\<open>platesForWeightPerSide\<close>; the loop state is
  the pair of \<^verbatim>\<open>remaining\<close> and \<^verbatim>\<open>out\<close>.\<close>

definition plate_step :: "Plate \<Rightarrow> number \<times> PlateCounts \<Rightarrow> number \<times> PlateCounts" where
  "plate_step p st =
     (case st of (remaining, out) \<Rightarrow>
        let count = math_floor (fadd (fdiv remaining (plate_value p)) (rnd (1 / 10 ^ 9))) in
        if num_lt (Fin 0) count
        then (half_round (fsub remaining (fmul count (plate_value p))), out(p := count))
        else (remaining, out))"

definition platesForWeightPerSide :: "number \<Rightarrow> PlateCounts" where
  "platesForWeightPerSide w = snd (fold plate_step PLATES (half_round w, emptyPlateCounts))"

subsection \<open>Weight normaliser\<close>

definition setTotalWeight :: "ExerciseSettings \<Rightarrow> SetEntry \<Rightarrow> number" where
  "setTotalWeight ex s =
     (case (if equipment ex = Barbell then barbellPlatesPerSide s else None) of
        Some plates \<Rightarrow> platesPerSideToTotal plates (barWeight ex)
      | None \<Rightarrow>
          if equipment ex = Db
          then fmul (case weight s of None \<Rightarrow> Fin 0 | Some w \<Rightarrow> w) (Fin 2)
          else (case weight s of None \<Rightarrow> Fin 0 | Some w \<Rightarrow> w))"

subsection \<open>Progression engine\<close>

record Scored =
  sc_s :: SetEntry
  totalReps :: number
  dirtyRatio :: number
  effectiveReps :: number
  weightTotal :: number

definition score :: "ExerciseSettings \<Rightarrow> SetEntry \<Rightarrow> Scored" where
  "score ex s =
     (let tr = fadd (cleanReps s) (dirtyReps s) in
      \<lparr> sc_s = s,
        totalReps = tr,
        dirtyRatio = (if num_eq tr (Fin 0) then Fin 0 else fdiv (dirtyReps s) tr),
        effectiveReps = fadd (cleanReps s) (fmul (dirtyReps s) (dirtyPenalty (repScheme ex))),
        weightTotal = setTotalWeight ex s \<rparr>)"

text \<open>
  \<^verbatim>\<open>Array.prototype.sort\<close> with a comparator is a stable sort: \<^verbatim>\<open>a\<close> is moved behind
  \<^verbatim>\<open>b\<close> only when \<^verbatim>\<open>cmp(a, b) > 0\<close>, and a comparator result NaN counts as zero. For a
  consistent comparator the result does not depend on the engine's algorithm; it is computed
  here by stable insertion. The comparator of \<^verbatim>\<open>computeSuggestion\<close> is consistent when no
  \<^verbatim>\<open>effectiveReps\<close> is NaN; with a NaN among them ECMAScript leaves the order of more than
  two elements to the implementation.
\<close>

fun insert_by :: "('a \<Rightarrow> 'a \<Rightarrow> number) \<Rightarrow> 'a \<Rightarrow> 'a list \<Rightarrow> 'a list" where
  "insert_by cmp x [] = [x]"
| "insert_by cmp x (y # ys) =
     (if num_lt (Fin 0) (cmp x y) then y # insert_by cmp x ys else x # y # ys)"

definition sort_by :: "('a \<Rightarrow> 'a \<Rightarrow> number) \<Rightarrow> 'a list \<Rightarrow> 'a list" where
  "sort_by cmp xs = foldr (insert_by cmp) xs []"

definition by_effectiveReps_desc :: "Scored \<Rightarrow> Scored \<Rightarrow> number" where
  "by_effectiveReps_desc a b = fsub (effectiveReps b) (effectiveReps a)"

datatype Action = Increase | Hold | Decrease

text \<open>
  The two rationale strings are template literals. They are represented by the template
  chosen and the values interpolated into it; rendering numbers as text is left out.
\<close>

datatype Message =
    MsgProgress number
  | MsgBelowRange number number
  | MsgTooDirty number
  | MsgAimClean number number

datatype WeightText =
    TxtPerHand number number
  | TxtAddPlates PlateCounts PlateCounts number
  | TxtTotal number
  | TxtPlain number

datatype NextGoal =
    GoalNext WeightText number number number
  | GoalKeep WeightText number number

record BarbellInfo =
  bestPlates :: "PlateCounts option"
  deltaPlatesPerSide :: "PlateCounts option"
  nextPlatesPerSide :: "PlateCounts option"

record Suggestion =
  best :: Scored
  action :: Action
  nextWeight :: number
  inc :: number
  message :: Message
  nextGoal :: NextGoal
  barbell :: "BarbellInfo option"

definition decide :: "RepScheme \<Rightarrow> Scored \<Rightarrow> Action \<times> Message" where
  "decide scheme b =
     (let canProgress =
            (num_le (progressMinClean scheme) (cleanReps (sc_s b)) \<and>
             num_le (dirtyRatio b) (maxDirtyRatioToProgress scheme))
      in if canProgress then (Increase, MsgProgress (cleanReps (sc_s b)))
         else if num_lt (cleanReps (sc_s b)) (workRangeMin scheme)
           then (Decrease, MsgBelowRange (workRangeMin scheme) (workRangeMax scheme))
         else if num_lt (maxDirtyRatioToProgress scheme) (dirtyRatio b)
           then (Hold, MsgTooDirty (math_round (fmul (dirtyRatio b) (Fin 100))))
         else (Hold, MsgAimClean (progressMinClean scheme) (progressMaxClean scheme)))"

definition formatNextWeight ::
  "ExerciseSettings \<Rightarrow> Action \<Rightarrow> number \<Rightarrow> PlateCounts option \<Rightarrow> PlateCounts option \<Rightarrow> WeightText"
where
  "formatNextWeight ex act nw nextPlates deltaPlates =
     (if equipment ex = Db then TxtPerHand (fdiv nw (Fin 2)) nw
      else if equipment ex = Barbell then
        (case (if act = Increase then nextPlates else None, deltaPlates) of
           (Some np, Some dp) \<Rightarrow> TxtAddPlates dp np nw
         | _ \<Rightarrow> TxtTotal nw)
      else TxtPlain nw)"

definition formatCurrentWeight :: "ExerciseSettings \<Rightarrow> Scored \<Rightarrow> WeightText" where
  "formatCurrentWeight ex b =
     (if equipment ex = Db then TxtPerHand (fdiv (weightTotal b) (Fin 2)) (weightTotal b)
      else if equipment ex = Barbell then TxtTotal (weightTotal b)
      else TxtPlain (weightTotal b))"

text \<open>The body of \<^verbatim>\<open>computeSuggestion\<close> after \<^verbatim>\<open>best = scored[0]\<close>.\<close>

definition suggestFrom :: "ExerciseSettings \<Rightarrow> Scored \<Rightarrow> Suggestion" where
  "suggestFrom ex b =
     (let scheme = repScheme ex;
          (act, msg) = decide scheme b;
          incr = (if equipment ex = Db then fmul (dbIncrementPerHand ex) (Fin 2)
                  else if equipment ex = Barbell then fmul (barbellIncrementPerSide ex) (Fin 2)
                  else otherIncrementTotal ex);
          nw = (if act = Increase then fadd (weightTotal b) incr
                else if act = Decrease then math_max (Fin 0) (fsub (weightTotal b) incr)
                else weightTotal b);
          bp = (if equipment ex = Barbell then barbellPlatesPerSide (sc_s b) else None);
          deltaPerSide = (if equipment ex = Barbell then barbellIncrementPerSide ex else Fin 0);
          dp = (if equipment ex = Barbell \<and> act = Increase
                then Some (platesForWeightPerSide deltaPerSide) else None);
          np = (case (if equipment ex = Barbell then bp else None, dp) of
                  (Some x, Some y) \<Rightarrow> Some (addPlateCounts x y)
                | _ \<Rightarrow> None);
          goal = (if act = Increase
                  then GoalNext (formatNextWeight ex act nw np dp)
                         (workRangeMin scheme) (workRangeMax scheme)
                         (math_round (fmul (maxDirtyRatioToProgress scheme) (Fin 100)))
                  else GoalKeep (formatCurrentWeight ex b) (progressMinClean scheme)
                         (math_round (fmul (maxDirtyRatioToProgress scheme) (Fin 100))))
      in \<lparr> best = b, action = act, nextWeight = nw, inc = incr, message = msg,
           nextGoal = goal,
           barbell = (if equipment ex = Barbell
                      then Some \<lparr> bestPlates = bp, deltaPlatesPerSide = dp,
                                  nextPlatesPerSide = np \<rparr>
                      else None) \<rparr>)"

text \<open>
  \<^verbatim>\<open>computeSuggestion\<close> returns \<^verbatim>\<open>null\<close> (\<^const>\<open>None\<close>) when no set belongs to the
  exercise. Sorting keeps the length, so \<^verbatim>\<open>scored[0]\<close> exists on the other path; the
  empty case of the \<^verbatim>\<open>case\<close> below is never taken (lemma \<open>sort_by_Nil_iff\<close>).
\<close>

definition computeSuggestion :: "ExerciseSettings \<Rightarrow> SetEntry list \<Rightarrow> Suggestion option" where
  "computeSuggestion ex sets =
     (let relevant = filter (\<lambda>s. exerciseId s = ex_id ex) sets in
      if length relevant = 0 then None
      else (case sort_by by_effectiveReps_desc (map (score ex) relevant) of
              [] \<Rightarrow> None
            | b # _ \<Rightarrow> Some (suggestFrom ex b)))"

subsection \<open>Sums of plates\<close>

text \<open>
  A weight is exactly representable by the denomination set when it is the sum of a number of
  plates of each denomination; \<open>denomination_sum n\<close> is that sum for the counts \<open>n\<close>, as
  a rational number.
\<close>

definition denomination_sum :: "(Plate \<Rightarrow> nat) \<Rightarrow> rat" where
  "denomination_sum n =
     45 * of_nat (n P45) + 35 * of_nat (n P35) + 25 * of_nat (n P25) + 10 * of_nat (n P10) +
     5 * of_nat (n P5) + 5 / 2 * of_nat (n P2_5)"

subsection \<open>Example data\<close>

text \<open>
  The exercises and sets of the test suite at the end of \<^verbatim>\<open>App.tsx\<close>
  (\<^verbatim>\<open>runTestsOnce\<close>), and a few more in the same style.
\<close>

definition exCable :: ExerciseSettings where
  "exCable = mkEx ''t_c'' ''Test Cable'' Cable"


definition mkSet ::
  "string \<Rightarrow> string \<Rightarrow> number option \<Rightarrow> PlateCounts option \<Rightarrow> number \<Rightarrow> number \<Rightarrow> SetEntry"
where
  "mkSet i e w pl c d =
     \<lparr> set_id = i, exerciseId = e, kind = None, parentSetId = None, weight = w,
       barbellPlatesPerSide = pl, cleanReps = c, dirtyReps = d, set_notes = None,
       createdAt = Fin 0 \<rparr>"

definition set_a :: SetEntry where
  "set_a = mkSet ''a'' ''t_c'' (Some (Fin 100)) None (Fin 8) (Fin 4)"

definition set_b :: SetEntry where
  "set_b = mkSet ''b'' ''other'' (Some (Fin 300)) None (Fin 20) (Fin 0)"

definition set_c :: SetEntry where
  "set_c = mkSet ''c'' ''t_c'' (Some (Fin 100)) None (Fin 10) (Fin 0)"

definition set_dirty :: SetEntry where
  "set_dirty = mkSet ''s'' ''t_c'' (Some (Fin 100)) None (Fin 10) (Fin 5)"


definition set_scalar :: SetEntry where
  "set_scalar = mkSet ''s'' ''t_bb'' (Some (Fin 100)) None (Fin 5) (Fin 0)"

definition bb_set_no_plates :: SetEntry where
  "bb_set_no_plates =
     \<lparr> set_id = ''s'', exerciseId = ''t_bb'', kind = None, parentSetId = None,
       weight = None, barbellPlatesPerSide = None, cleanReps = Fin 5, dirtyReps = Fin 0,
       set_notes = None, createdAt = Fin 0 \<rparr>"

fun plates_10_5 :: "Plate \<Rightarrow> nat" where
  "plates_10_5 P10 = 1"
| "plates_10_5 P5 = 1"
| "plates_10_5 _ = 0"

text \<open>
  An exercise whose \<^verbatim>\<open>dirtyPenalty\<close> is \<^verbatim>\<open>Infinity\<close>, as \<^verbatim>\<open>JSON.parse\<close> reads
  \<^verbatim>\<open>1e999\<close> from an imported document, and two sets of it: five clean reps, and one clean
  with one dirty rep.
\<close>

definition exInf :: ExerciseSettings where
  "exInf = (mkEx ''t_c'' ''Test Cable'' Cable)
     \<lparr> repScheme := (repScheme (mkEx ''t_c'' ''Test Cable'' Cable)) \<lparr> dirtyPenalty := PInf \<rparr> \<rparr>"

definition set_clean :: SetEntry where
  "set_clean = mkSet ''a'' ''t_c'' (Some (Fin 100)) None (Fin 5) (Fin 0)"

definition set_mixed :: SetEntry where
  "set_mixed = mkSet ''b'' ''t_c'' (Some (Fin 100)) None (Fin 1) (Fin 1)"

text \<open>
  Variants of an exercise with another \<^verbatim>\<open>dirtyPenalty\<close> or another
  \<^verbatim>\<open>maxDirtyRatioToProgress\<close>, a set given by its clean and dirty reps, and a stack of
  \<open>2 ^ 50\<close> plates of 45 with four plates of 10.
\<close>

definition with_penalty :: "number \<Rightarrow> ExerciseSettings \<Rightarrow> ExerciseSettings" where
  "with_penalty v ex = ex \<lparr> repScheme := (repScheme ex) \<lparr> dirtyPenalty := v \<rparr> \<rparr>"

definition with_threshold :: "number \<Rightarrow> ExerciseSettings \<Rightarrow> ExerciseSettings" where
  "with_threshold v ex = ex \<lparr> repScheme := (repScheme ex) \<lparr> maxDirtyRatioToProgress := v \<rparr> \<rparr>"

definition reps :: "string \<Rightarrow> rat \<Rightarrow> rat \<Rightarrow> SetEntry" where
  "reps i c d = mkSet i ''t_c'' (Some (Fin 100)) None (Fin c) (Fin d)"

fun heavy_plates :: "Plate \<Rightarrow> nat" where
  "heavy_plates P45 = 2 ^ 50"
| "heavy_plates P10 = 4"
| "heavy_plates _ = 0"

section \<open>LiftGraph: schedule migration and resolution\<close>

text \<open>
  A week's \<^verbatim>\<open>days\<close> object and a workout's \<^verbatim>\<open>exerciseIds\<close> array are mutable
  JavaScript objects: two variables may hold the same one. They live in an explicit store, a list
  of cells addressed by position; allocation appends a cell. All other objects are only ever built
  and read, and are modelled by value. A \<^verbatim>\<open>Record<DayName, string | null>\<close> is a function
  from the seven day names, \<^verbatim>\<open>null\<close> being \<^const>\<open>None\<close>.
\<close>

datatype DayName = Monday | Tuesday | Wednesday | Thursday | Friday | Saturday | Sunday

type_synonym Days = "DayName \<Rightarrow> string option"

type_synonym ref = nat

datatype cell = DaysCell Days | IdsCell "string list"

type_synonym store = "cell list"

definition alloc :: "cell \<Rightarrow> store \<Rightarrow> ref \<times> store" where
  "alloc c h = (length h, h @ [c])"

text \<open>
  A reference held by a JavaScript value always points to a live object. Reading the store at
  a position beyond its end, or at a cell of the other kind, gives the empty object here, and
  writing there does nothing.
\<close>

definition deref :: "store \<Rightarrow> ref \<Rightarrow> cell option" where
  "deref h r = (if r < length h then Some (h ! r) else None)"

definition days_of :: "store \<Rightarrow> ref \<Rightarrow> Days" where
  "days_of h r = (case deref h r of Some (DaysCell f) \<Rightarrow> f | _ \<Rightarrow> (\<lambda>_. None))"

definition ids_of :: "store \<Rightarrow> ref \<Rightarrow> string list" where
  "ids_of h r = (case deref h r of Some (IdsCell xs) \<Rightarrow> xs | _ \<Rightarrow> [])"

definition set_day :: "ref \<Rightarrow> DayName \<Rightarrow> string option \<Rightarrow> store \<Rightarrow> store" where
  "set_day r d v h = (if r < length h then h[r := DaysCell ((days_of h r)(d := v))] else h)"

record WorkoutTemplate =
  wt_id :: string
  wt_name :: string
  wt_day :: DayName
  wt_exerciseIds :: ref

record WorkoutLibraryItem =
  lib_id :: string
  lib_name :: string
  lib_exerciseIds :: ref

record SplitWeek =
  days :: ref

record Split =
  week1 :: SplitWeek
  week2 :: SplitWeek

datatype WeekKey = Week1 | Week2

fun week_of :: "Split \<Rightarrow> WeekKey \<Rightarrow> SplitWeek" where
  "week_of sp Week1 = week1 sp"
| "week_of sp Week2 = week2 sp"

record AppSettings =
  activeWeek :: WeekKey
  keepScreenAwake :: "bool option"

datatype SessionStatus = Active | Completed | Skipped

record Session =
  ses_id :: string
  ses_workoutId :: string
  dateISO :: string
  ses_sets :: "SetEntry list"
  status :: SessionStatus
  startedAt :: "number option"
  endedAt :: "number option"

record PersistedState =
  exercises :: "ExerciseSettings list"
  workouts :: "WorkoutTemplate list"
  workoutLibrary :: "WorkoutLibraryItem list option"
  split :: "Split option"
  settings :: "AppSettings option"
  sessions :: "Session list"

text \<open>
  \<^verbatim>\<open>emptySplitWeek\<close> builds a new \<^verbatim>\<open>days\<close> object; \<^verbatim>\<open>cloneSplitWeek\<close> builds a
  new one from the spread \<^verbatim>\<open>{ ...w.days }\<close> of an existing one.
\<close>

definition emptySplitWeek :: "store \<Rightarrow> SplitWeek \<times> store" where
  "emptySplitWeek h = (case alloc (DaysCell (\<lambda>_. None)) h of (r, h') \<Rightarrow> (\<lparr> days = r \<rparr>, h'))"

definition cloneSplitWeek :: "SplitWeek \<Rightarrow> store \<Rightarrow> SplitWeek \<times> store" where
  "cloneSplitWeek w h =
     (case alloc (DaysCell (days_of h (days w))) h of (r, h') \<Rightarrow> (\<lparr> days = r \<rparr>, h'))"

text \<open>
  The \<^verbatim>\<open>map\<close> over the legacy templates in \<^verbatim>\<open>ensureV2State\<close>: each library item
  gets a new array \<^verbatim>\<open>[...w.exerciseIds]\<close>.
\<close>

fun copy_templates :: "WorkoutTemplate list \<Rightarrow> store \<Rightarrow> WorkoutLibraryItem list \<times> store" where
  "copy_templates [] h = ([], h)"
| "copy_templates (w # ws) h =
     (case alloc (IdsCell (ids_of h (wt_exerciseIds w))) h of (r, h1) \<Rightarrow>
        (case copy_templates ws h1 of (items, h2) \<Rightarrow>
           (\<lparr> lib_id = wt_id w, lib_name = wt_name w, lib_exerciseIds = r \<rparr> # items, h2)))"

text \<open>
  The body of the loop \<^verbatim>\<open>if (week1.days[w.day] == null) week1.days[w.day] = w.id\<close>.
\<close>

definition assign_first :: "SplitWeek \<Rightarrow> WorkoutTemplate \<Rightarrow> store \<Rightarrow> store" where
  "assign_first week w h =
     (if days_of h (days week) (wt_day w) = None
      then set_day (days week) (wt_day w) (Some (wt_id w)) h
      else h)"

text \<open>
  \<^verbatim>\<open>ensureV2State\<close> returns its argument itself when the three v2 fields are present
  (an array or object is always truthy); the store is then untouched.
\<close>

definition ensureV2State :: "PersistedState \<Rightarrow> store \<Rightarrow> PersistedState \<times> store" where
  "ensureV2State raw h =
     (if workoutLibrary raw \<noteq> None \<and> split raw \<noteq> None \<and> settings raw \<noteq> None then (raw, h)
      else
        (case copy_templates (workouts raw) h of (lib, h1) \<Rightarrow>
         (case emptySplitWeek h1 of (w1, h2) \<Rightarrow>
          (let h3 = fold (assign_first w1) (workouts raw) h2 in
           (case cloneSplitWeek w1 h3 of (w2, h4) \<Rightarrow>
              (raw \<lparr> workoutLibrary := Some lib,
                     split := Some \<lparr> week1 = w1, week2 = w2 \<rparr>,
                     settings := Some \<lparr> activeWeek = Week1, keepScreenAwake = None \<rparr> \<rparr>,
               h4))))))"

record ResolvedWorkout =
  rw_id :: string
  rw_name :: string
  rw_exerciseIds :: ref

record Resolution =
  workout :: "ResolvedWorkout option"
  workoutId :: "string option"
  res_activeWeek :: WeekKey

text \<open>
  \<^verbatim>\<open>resolveWorkoutForDay\<close>. The test \<^verbatim>\<open>if (v2Id)\<close> is a truthiness test: it fails for
  \<^verbatim>\<open>null\<close> and for the empty string.
\<close>

definition resolveWorkoutForDay :: "store \<Rightarrow> PersistedState \<Rightarrow> DayName \<Rightarrow> Resolution" where
  "resolveWorkoutForDay h st day =
     (let aw = (case settings st of None \<Rightarrow> Week1 | Some s \<Rightarrow> activeWeek s);
          v2Id = (case split st of None \<Rightarrow> None
                  | Some sp \<Rightarrow> days_of h (days (week_of sp aw)) day)
      in case (case v2Id of None \<Rightarrow> None | Some i \<Rightarrow> if i = [] then None else Some i) of
           Some i \<Rightarrow>
             (case (case workoutLibrary st of None \<Rightarrow> None
                    | Some lib \<Rightarrow> find (\<lambda>x. lib_id x = i) lib) of
                Some w \<Rightarrow>
                  \<lparr> workout = Some \<lparr> rw_id = lib_id w, rw_name = lib_name w,
                                     rw_exerciseIds = lib_exerciseIds w \<rparr>,
                    workoutId = Some (lib_id w), res_activeWeek = aw \<rparr>
              | None \<Rightarrow> \<lparr> workout = None, workoutId = None, res_activeWeek = aw \<rparr>)
         | None \<Rightarrow>
             (case find (\<lambda>w. wt_day w = day) (workouts st) of
                None \<Rightarrow> \<lparr> workout = None, workoutId = None, res_activeWeek = aw \<rparr>
              | Some legacy \<Rightarrow>
                  \<lparr> workout = Some \<lparr> rw_id = wt_id legacy, rw_name = wt_name legacy,
                                     rw_exerciseIds = wt_exerciseIds legacy \<rparr>,
                    workoutId = Some (wt_id legacy), res_activeWeek = aw \<rparr>))"

subsection \<open>Example states\<close>

text \<open>
  The legacy document of the migration test in \<^verbatim>\<open>runTestsOnce\<close> (two templates on
  Wednesday), and a state with all three v2 fields whose first week has a rest day on Monday and,
  on Wednesday, the id of a workout that is no longer in the library. In the last store the
  Wednesday slot of the first week holds the empty string instead.
\<close>

definition legacy_store :: store where
  "legacy_store = [IdsCell [''t_db''], IdsCell [''t_bb''], IdsCell [''t_c'']]"

definition legacy_state :: PersistedState where
  "legacy_state =
     \<lparr> exercises = [],
       workouts =
         [\<lparr> wt_id = ''w_mon'', wt_name = ''Mon'', wt_day = Monday, wt_exerciseIds = 0 \<rparr>,
          \<lparr> wt_id = ''w_wed_a'', wt_name = ''Wed A'', wt_day = Wednesday, wt_exerciseIds = 1 \<rparr>,
          \<lparr> wt_id = ''w_wed_b'', wt_name = ''Wed B'', wt_day = Wednesday, wt_exerciseIds = 2 \<rparr>],
       workoutLibrary = None, split = None, settings = None, sessions = [] \<rparr>"

definition v2_store :: store where
  "v2_store =
     [IdsCell [''t_db''],
      DaysCell ((\<lambda>_. None)(Wednesday := Some ''w_gone'')),
      DaysCell (\<lambda>_. None)]"

definition v2_state :: PersistedState where
  "v2_state =
     \<lparr> exercises = [],
       workouts =
         [\<lparr> wt_id = ''w_mon'', wt_name = ''Mon'', wt_day = Monday, wt_exerciseIds = 0 \<rparr>,
          \<lparr> wt_id = ''w_wed_a'', wt_name = ''Wed A'', wt_day = Wednesday, wt_exerciseIds = 0 \<rparr>],
       workoutLibrary = Some [\<lparr> lib_id = ''w_mon'', lib_name = ''Mon'', lib_exerciseIds = 0 \<rparr>],
       split = Some \<lparr> week1 = \<lparr> days = 1 \<rparr>, week2 = \<lparr> days = 2 \<rparr> \<rparr>,
       settings = Some \<lparr> activeWeek = Week1, keepScreenAwake = None \<rparr>,
       sessions = [] \<rparr>"


section \<open>LiftGraph: validation of an imported split\<close>

text \<open>
  \<^verbatim>\<open>validateImport\<close> and \<^verbatim>\<open>handleImport\<close> of \<^verbatim>\<open>src/liftgraph/src/SplitEditor.tsx\<close>.
  A parsed JSON value is a \<open>json\<close>; an object is the list of its own keys with their values, in
  the order of \<^verbatim>\<open>Object.keys\<close> (the keys of a parsed object are distinct).
  \<^verbatim>\<open>JSON.parse\<close> is a parameter \<open>json_parse\<close> of the model, \<^const>\<open>None\<close> standing for
  the exception it throws on malformed text.
\<close>

datatype json =
    JNull
  | JBool bool
  | JNum number
  | JStr string
  | JArr "json list"
  | JObj "(string \<times> json) list"

definition isPlainObject :: "json \<Rightarrow> bool" where
  "isPlainObject v = (case v of JObj _ \<Rightarrow> True | _ \<Rightarrow> False)"

definition object_keys :: "json \<Rightarrow> string list" where
  "object_keys v = (case v of JObj kvs \<Rightarrow> map fst kvs | _ \<Rightarrow> [])"

definition get_member :: "string \<Rightarrow> json \<Rightarrow> json option" where
  "get_member k v = (case v of JObj kvs \<Rightarrow> map_of kvs k | _ \<Rightarrow> None)"

record SplitDay =
  sd_name :: DayName
  sd_workoutId :: "string option"

record Week =
  week_id :: string
  week_name :: string
  week_days :: "SplitDay list"

definition ALL_DAYS :: "DayName list" where
  "ALL_DAYS = [Monday, Tuesday, Wednesday, Thursday, Friday, Saturday, Sunday]"

fun day_string :: "DayName \<Rightarrow> string" where
  "day_string Monday = ''Monday''"
| "day_string Tuesday = ''Tuesday''"
| "day_string Wednesday = ''Wednesday''"
| "day_string Thursday = ''Thursday''"
| "day_string Friday = ''Friday''"
| "day_string Saturday = ''Saturday''"
| "day_string Sunday = ''Sunday''"

definition as_day :: "json option \<Rightarrow> DayName option" where
  "as_day v = (case v of Some (JStr s) \<Rightarrow> find (\<lambda>d. day_string d = s) ALL_DAYS | _ \<Rightarrow> None)"

text \<open>
  \<^verbatim>\<open>String.prototype.trim\<close>. A \<^typ>\<open>char\<close> is a code unit below 256; the white space
  and line terminators of ECMAScript among these are the space, the controls 9 to 13 and the
  no-break space \<^verbatim>\<open>U+00A0\<close>.
\<close>

definition is_space :: "char \<Rightarrow> bool" where
  "is_space c = (c \<in> set [CHR '' '', CHR 0x09, CHR 0x0A, CHR 0x0B, CHR 0x0C, CHR 0x0D, CHR 0xA0])"

definition trim :: "string \<Rightarrow> string" where
  "trim s = rev (dropWhile is_space (rev (dropWhile is_space s)))"

text \<open>
  The decimal digits of \<^verbatim>\<open>${i + 1}\<close> in the messages, and the single quotes around an
  interpolated name.
\<close>

definition digit_char :: "nat \<Rightarrow> char" where
  "digit_char n = ''0123456789'' ! (n mod 10)"

fun string_of_nat :: "nat \<Rightarrow> string" where
  "string_of_nat n =
     (if n < 10 then [digit_char n] else string_of_nat (n div 10) @ [digit_char (n mod 10)])"

declare string_of_nat.simps [simp del]

definition quote :: "string \<Rightarrow> string" where
  "quote s = [CHR 0x27] @ s @ [CHR 0x27]"

definition week_label :: "nat \<Rightarrow> string" where
  "week_label i = ''Week '' @ string_of_nat (i + 1)"

text \<open>
  The body of the inner loop over the days of a week: the first failing check returns its
  message (\<^const>\<open>Inl\<close>), otherwise the normalised day is returned.
\<close>

definition check_day :: "string list \<Rightarrow> nat \<Rightarrow> DayName list \<Rightarrow> json \<Rightarrow> string + SplitDay" where
  "check_day workoutIds i seenDayNames day =
     (if \<not> isPlainObject day then Inl (week_label i @ '' contains an invalid day.'')
      else
        let dayKeys = object_keys day in
        if length dayKeys \<noteq> 2 \<or> ''name'' \<notin> set dayKeys \<or> ''workoutId'' \<notin> set dayKeys
        then Inl (week_label i @ '' day entries must include only name and workoutId.'')
        else
          (case as_day (get_member ''name'' day) of
             None \<Rightarrow> Inl (week_label i @ '' contains an invalid day name.'')
           | Some dayName \<Rightarrow>
               if dayName \<in> set seenDayNames
               then Inl (week_label i @ '' contains duplicate day '' @ quote (day_string dayName)
                          @ ''.'')
               else
                 (case get_member ''workoutId'' day of
                    Some JNull \<Rightarrow> Inr \<lparr> sd_name = dayName, sd_workoutId = None \<rparr>
                  | Some (JStr wo) \<Rightarrow>
                      if wo \<notin> set workoutIds
                      then Inl (week_label i @ '' day '' @ quote (day_string dayName)
                                 @ '' references missing workout '' @ quote wo @ ''.'')
                      else Inr \<lparr> sd_name = dayName, sd_workoutId = Some wo \<rparr>
                  | _ \<Rightarrow> Inl (week_label i @ '' day '' @ quote (day_string dayName)
                                 @ '' has an invalid workoutId.''))))"

fun validateDays ::
  "string list \<Rightarrow> nat \<Rightarrow> json list \<Rightarrow> DayName list \<Rightarrow> SplitDay list \<Rightarrow> string + SplitDay list"
where
  "validateDays workoutIds i [] seenDayNames normalizedDays = Inr normalizedDays"
| "validateDays workoutIds i (day # rest) seenDayNames normalizedDays =
     (case check_day workoutIds i seenDayNames day of
        Inl e \<Rightarrow> Inl e
      | Inr d \<Rightarrow>
          validateDays workoutIds i rest (seenDayNames @ [sd_name d]) (normalizedDays @ [d]))"

definition orderedDays :: "SplitDay list \<Rightarrow> SplitDay list" where
  "orderedDays normalizedDays =
     map (\<lambda>d. case find (\<lambda>day. sd_name day = d) normalizedDays of
                 Some found \<Rightarrow> found
               | None \<Rightarrow> \<lparr> sd_name = d, sd_workoutId = None \<rparr>) ALL_DAYS"

text \<open>
  The body of the outer loop over the weeks, up to \<^verbatim>\<open>normalizedWeeks.push\<close>.
\<close>

definition check_week :: "string list \<Rightarrow> nat \<Rightarrow> string list \<Rightarrow> json \<Rightarrow> string + Week" where
  "check_week workoutIds i seenWeekIds week =
     (if \<not> isPlainObject week then Inl (week_label i @ '' must be an object.'')
      else
        let weekKeys = object_keys week in
        if length weekKeys \<noteq> 3 \<or> ''id'' \<notin> set weekKeys \<or> ''name'' \<notin> set weekKeys
           \<or> ''days'' \<notin> set weekKeys
        then Inl (week_label i @ '' must include only id, name, and days.'')
        else
          (case get_member ''id'' week of
             Some (JStr wid) \<Rightarrow>
               if trim wid = [] then Inl (week_label i @ '' has an invalid id.'')
               else if wid \<in> set seenWeekIds
               then Inl (''Duplicate week id '' @ quote wid @ '' found.'')
               else
                 (case get_member ''name'' week of
                    Some (JStr name) \<Rightarrow>
                      if trim name = [] then Inl (week_label i @ '' has an invalid name.'')
                      else
                        (case get_member ''days'' week of
                           Some (JArr ds) \<Rightarrow>
                             if length ds \<noteq> 7
                             then Inl (week_label i @ '' must have exactly 7 days.'')
                             else
                               (case validateDays workoutIds i ds [] [] of
                                  Inl e \<Rightarrow> Inl e
                                | Inr normalizedDays \<Rightarrow>
                                    Inr \<lparr> week_id = wid, week_name = trim name,
                                          week_days = orderedDays normalizedDays \<rparr>)
                         | _ \<Rightarrow> Inl (week_label i @ '' must have exactly 7 days.''))
                  | _ \<Rightarrow> Inl (week_label i @ '' has an invalid name.''))
           | _ \<Rightarrow> Inl (week_label i @ '' has an invalid id.'')))"

fun validateWeeks ::
  "string list \<Rightarrow> nat \<Rightarrow> json list \<Rightarrow> string list \<Rightarrow> Week list \<Rightarrow> string + Week list"
where
  "validateWeeks workoutIds i [] seenWeekIds normalizedWeeks = Inr normalizedWeeks"
| "validateWeeks workoutIds i (week # rest) seenWeekIds normalizedWeeks =
     (case check_week workoutIds i seenWeekIds week of
        Inl e \<Rightarrow> Inl e
      | Inr w \<Rightarrow>
          validateWeeks workoutIds (i + 1) rest (seenWeekIds @ [week_id w]) (normalizedWeeks @ [w]))"

text \<open>
  The checks of \<^verbatim>\<open>validateImport\<close> after \<^verbatim>\<open>JSON.parse\<close>, as a function that returns
  the first error message or the normalised weeks.
\<close>

definition check_document :: "WorkoutLibraryItem list \<Rightarrow> json \<Rightarrow> string + Week list" where
  "check_document library parsed =
     (if \<not> isPlainObject parsed then Inl ''Top-level JSON must be an object.''
      else
        let keys = object_keys parsed in
        if (case keys of [k] \<Rightarrow> k \<noteq> ''weeks'' | _ \<Rightarrow> True)
        then Inl (''JSON must contain only a top-level '' @ quote ''weeks'' @ '' array.'')
        else
          (case get_member ''weeks'' parsed of
             Some (JArr weeksValue) \<Rightarrow>
               if length weeksValue = 0
               then Inl (quote ''weeks'' @ '' must be a non-empty array.'')
               else validateWeeks (map lib_id library) 0 weeksValue [] []
           | _ \<Rightarrow> Inl (quote ''weeks'' @ '' must be a non-empty array.'')))"

text \<open>
  The state of the import dialog held by the component (\<^verbatim>\<open>useState\<close>).
\<close>

record ImportModal =
  importOpen :: bool
  importText :: string
  importError :: "string option"
  importReady :: bool
  importWeeks :: "Week list option"

definition resetImportState :: "ImportModal \<Rightarrow> ImportModal" where
  "resetImportState m =
     m \<lparr> importText := [], importError := None, importReady := False, importWeeks := None \<rparr>"

definition validateImport ::
  "(string \<Rightarrow> json option) \<Rightarrow> WorkoutLibraryItem list \<Rightarrow> ImportModal \<Rightarrow> ImportModal" where
  "validateImport json_parse library m =
     (let m0 = m \<lparr> importError := None, importReady := False, importWeeks := None \<rparr> in
      case json_parse (importText m) of
        None \<Rightarrow> m0 \<lparr> importError := Some ''Invalid JSON. Please check formatting.'' \<rparr>
      | Some parsed \<Rightarrow>
          (case check_document library parsed of
             Inl e \<Rightarrow> m0 \<lparr> importError := Some e \<rparr>
           | Inr normalizedWeeks \<Rightarrow>
               m0 \<lparr> importReady := True, importWeeks := Some normalizedWeeks \<rparr>))"

text \<open>
  \<^verbatim>\<open>handleImport\<close> hands the validated weeks to the callback
  \<^verbatim>\<open>onRequestImportSplit\<close> of the parent component, a parameter here; \<open>'app\<close> is the state
  that the parent keeps and the callback may change.
\<close>

definition handleImport ::
  "(Week list \<Rightarrow> 'app \<Rightarrow> 'app) \<Rightarrow> ImportModal \<times> 'app \<Rightarrow> ImportModal \<times> 'app" where
  "handleImport onRequestImportSplit st =
     (case st of (m, app) \<Rightarrow>
        (case (if importReady m then importWeeks m else None) of
           None \<Rightarrow> (m, app)
         | Some weeks \<Rightarrow>
             (resetImportState (m \<lparr> importOpen := False \<rparr>), onRequestImportSplit weeks app)))"

subsection \<open>The checks listed for a split document\<close>

text \<open>
  The conditions that the import must enforce, stated on the document: an object with exactly the
  key \<^verbatim>\<open>weeks\<close>, holding a non-empty array; every week with exactly the keys
  \<^verbatim>\<open>id\<close>, \<^verbatim>\<open>name\<close>, \<^verbatim>\<open>days\<close>; no two weeks with the same id; every day list an array of
  exactly 7 entries, whose names are weekday names without duplicates, and whose
  \<^verbatim>\<open>workoutId\<close>, when a string, is the id of a library item.
\<close>

definition week_keys_ok :: "json \<Rightarrow> bool" where
  "week_keys_ok w =
     (isPlainObject w \<and> length (object_keys w) = 3 \<and>
      set (object_keys w) = {''id'', ''name'', ''days''})"

definition day_list :: "json \<Rightarrow> json list option" where
  "day_list w = (case get_member ''days'' w of Some (JArr ds) \<Rightarrow> Some ds | _ \<Rightarrow> None)"

definition day_names_ok :: "json list \<Rightarrow> bool" where
  "day_names_ok ds =
     (list_all (\<lambda>d. as_day (get_member ''name'' d) \<noteq> None) ds \<and>
      distinct (map (get_member ''name'') ds))"

definition workout_refs_ok :: "string list \<Rightarrow> json list \<Rightarrow> bool" where
  "workout_refs_ok ids ds =
     list_all (\<lambda>d. case get_member ''workoutId'' d of
                     Some (JStr s) \<Rightarrow> s \<in> set ids
                   | _ \<Rightarrow> True) ds"

definition week_days_ok :: "string list \<Rightarrow> json \<Rightarrow> bool" where
  "week_days_ok ids w =
     (case day_list w of
        Some ds \<Rightarrow> length ds = 7 \<and> day_names_ok ds \<and> workout_refs_ok ids ds
      | None \<Rightarrow> False)"

definition passes_listed_checks :: "WorkoutLibraryItem list \<Rightarrow> json \<Rightarrow> bool" where
  "passes_listed_checks library doc =
     (isPlainObject doc \<and> object_keys doc = [''weeks''] \<and>
      (case get_member ''weeks'' doc of
         Some (JArr ws) \<Rightarrow>
           ws \<noteq> [] \<and> list_all week_keys_ok ws \<and> distinct (map (get_member ''id'') ws) \<and>
           list_all (week_days_ok (map lib_id library)) ws
       | _ \<Rightarrow> False))"

subsection \<open>Example documents\<close>

definition day_json :: "string \<Rightarrow> json \<Rightarrow> json" where
  "day_json n w = JObj [(''name'', JStr n), (''workoutId'', w)]"

definition week_json :: "string \<Rightarrow> string \<Rightarrow> json list \<Rightarrow> json" where
  "week_json i n ds = JObj [(''id'', JStr i), (''name'', JStr n), (''days'', JArr ds)]"

definition six_days :: "json list" where
  "six_days =
     [day_json ''Monday'' (JStr ''w_mon''), day_json ''Tuesday'' JNull,
      day_json ''Wednesday'' JNull, day_json ''Thursday'' JNull,
      day_json ''Friday'' JNull, day_json ''Saturday'' JNull]"

definition doc_six_days :: json where
  "doc_six_days = JObj [(''weeks'', JArr [week_json ''wk1'' ''Week 1'' six_days])]"

definition doc_duplicate_day :: json where
  "doc_duplicate_day =
     JObj [(''weeks'', JArr [week_json ''wk1'' ''Week 1'' (six_days @ [day_json ''Monday'' JNull])])]"

definition doc_unknown_workout :: json where
  "doc_unknown_workout =
     JObj [(''weeks'',
            JArr [week_json ''wk1'' ''Week 1'' (six_days @ [day_json ''Sunday'' (JStr ''w_gone'')])])]"

definition doc_valid :: json where
  "doc_valid =
     JObj [(''weeks'', JArr [week_json ''wk1'' '' Week 1 '' (six_days @ [day_json ''Sunday'' JNull])])]"

definition example_library :: "WorkoutLibraryItem list" where
  "example_library = [\<lparr> lib_id = ''w_mon'', lib_name = ''Mon'', lib_exerciseIds = 0 \<rparr>]"

definition modal_with :: "string \<Rightarrow> ImportModal" where
  "modal_with t =
     \<lparr> importOpen = True, importText = t, importError = None, importReady = False,
       importWeeks = None \<rparr>"

definition valid_weeks :: "Week list" where
  "valid_weeks =
     [\<lparr> week_id = ''wk1'', week_name = ''Week 1'',
        week_days =
          [\<lparr> sd_name = Monday, sd_workoutId = Some ''w_mon'' \<rparr>,
           \<lparr> sd_name = Tuesday, sd_workoutId = None \<rparr>,
           \<lparr> sd_name = Wednesday, sd_workoutId = None \<rparr>,
           \<lparr> sd_name = Thursday, sd_workoutId = None \<rparr>,
           \<lparr> sd_name = Friday, sd_workoutId = None \<rparr>,
           \<lparr> sd_name = Saturday, sd_workoutId = None \<rparr>,
           \<lparr> sd_name = Sunday, sd_workoutId = None \<rparr>] \<rparr>]"

section \<open>Rounding to binary64\<close>

text \<open>
  The rounding is monotone, it is the identity on the integers of at most 53 bits scaled by a
  power of two, and its results lie on the grid. These facts carry the arithmetic of the
  proofs below: a value is computed exactly where it is a binary64 number itself, and bounded
  between two binary64 numbers elsewhere.
\<close>

lemma rhe_of_int [simp]: "rhe (of_int n) = n"
  by (simp add: rhe_def)

lemma rhe_0 [simp]: "rhe 0 = 0"
  using rhe_of_int [of 0] by simp

lemma rhe_range: "\<lfloor>t\<rfloor> \<le> rhe t \<and> rhe t \<le> \<lfloor>t\<rfloor> + 1"
  by (simp add: rhe_def Let_def)

lemma rhe_mono: "t \<le> u \<Longrightarrow> rhe t \<le> rhe u"
proof (cases "\<lfloor>t\<rfloor> = \<lfloor>u\<rfloor>")
  case True
  assume "t \<le> u"
  then have "t - of_int \<lfloor>u\<rfloor> \<le> u - of_int \<lfloor>u\<rfloor>" by simp
  then show ?thesis
    unfolding rhe_def Let_def True by (auto split: if_splits)
next
  case False
  assume "t \<le> u"
  then have "\<lfloor>t\<rfloor> \<le> \<lfloor>u\<rfloor>" by (rule floor_mono)
  with False have "\<lfloor>t\<rfloor> + 1 \<le> \<lfloor>u\<rfloor>" by simp
  with rhe_range [of t] rhe_range [of u] show ?thesis by linarith
qed

lemma rhe_neg: "rhe (- t) = - rhe t"
proof (cases "t = of_int \<lfloor>t\<rfloor>")
  case True
  then obtain n where "t = of_int n" ..
  then have "- t = of_int (- n)" by simp
  then show ?thesis using \<open>t = of_int n\<close> by (simp only: rhe_of_int)
next
  case False
  have fl: "\<lfloor>- t\<rfloor> = - \<lfloor>t\<rfloor> - 1"
    using False by (simp add: floor_minus ceiling_altdef)
  have d: "- t - of_int (- \<lfloor>t\<rfloor> - 1) = 1 - (t - of_int \<lfloor>t\<rfloor>)" by simp
  show ?thesis
    unfolding rhe_def Let_def fl d by (auto split: if_splits)
qed

lemma rhe_ge: "of_int n \<le> t \<Longrightarrow> n \<le> rhe t"
  using rhe_mono [of "of_int n" t] by simp

lemma rhe_le: "t \<le> of_int n \<Longrightarrow> rhe t \<le> n"
  using rhe_mono [of t "of_int n"] by simp

lemma bitlen_mono: "a \<le> b \<Longrightarrow> bitlen a \<le> bitlen b"
  by (simp add: bitlen_def floorlog_mono nat_mono)

lemma rnd_scaled_neg: "rnd_scaled (- y) = - rnd_scaled y"
  by (simp add: rnd_scaled_def Let_def rhe_neg)

lemma rnd_scaled_0 [simp]: "rnd_scaled 0 = 0"
  by (simp add: rnd_scaled_def)

text \<open>Bounds of the rounded value by the powers of two around a non-negative argument.\<close>

lemma floor_lt_pow:
  fixes y :: rat
  assumes "0 \<le> y"
  shows "y < 2 ^ nat (bitlen \<lfloor>y\<rfloor>)"
proof (cases "0 < \<lfloor>y\<rfloor>")
  case True
  from bitlen_bounds [OF True] have "\<lfloor>y\<rfloor> < 2 ^ nat (bitlen \<lfloor>y\<rfloor>)" by simp
  then have "\<lfloor>y\<rfloor> + 1 \<le> 2 ^ nat (bitlen \<lfloor>y\<rfloor>)" by simp
  then have "(of_int (\<lfloor>y\<rfloor> + 1) :: rat) \<le> of_int (2 ^ nat (bitlen \<lfloor>y\<rfloor>))"
    by (simp only: of_int_le_iff)
  moreover have "y < of_int (\<lfloor>y\<rfloor> + 1)" using floor_correct [of y] by simp
  ultimately show ?thesis by simp
next
  case False
  then have "\<lfloor>y\<rfloor> \<le> 0" by linarith
  moreover have "0 \<le> \<lfloor>y\<rfloor>" using assms by (simp only: zero_le_floor)
  ultimately have z: "\<lfloor>y\<rfloor> = 0" by linarith
  have "y < of_int \<lfloor>y\<rfloor> + 1" using floor_correct [of y] by simp
  with z have "y < 1" "bitlen \<lfloor>y\<rfloor> = 0" by simp_all
  then show ?thesis by simp
qed

lemma pow_le_floor:
  fixes y :: rat
  assumes "1 \<le> bitlen \<lfloor>y\<rfloor>"
  shows "(2::rat) ^ nat (bitlen \<lfloor>y\<rfloor> - 1) \<le> y"
proof -
  have pos: "0 < \<lfloor>y\<rfloor>" using assms bitlen_eq_zero_iff [of "\<lfloor>y\<rfloor>"] by auto
  from bitlen_bounds [OF pos] have "2 ^ nat (bitlen \<lfloor>y\<rfloor> - 1) \<le> \<lfloor>y\<rfloor>" by simp
  then have "(of_int (2 ^ nat (bitlen \<lfloor>y\<rfloor> - 1)) :: rat) \<le> of_int \<lfloor>y\<rfloor>"
    by (simp only: of_int_le_iff)
  also have "\<dots> \<le> y" by simp
  finally show ?thesis by simp
qed

lemma rnd_scaled_upper:
  assumes "0 \<le> y"
  shows "rnd_scaled y \<le> 2 ^ nat (bitlen \<lfloor>y\<rfloor>)"
proof -
  define n where "n = bitlen \<lfloor>y\<rfloor>"
  define s where "s = nat (n - 53)"
  have n0: "0 \<le> n" by (simp add: n_def bitlen_nonneg)
  have sn: "s \<le> nat n" by (simp add: s_def)
  have "y < 2 ^ nat n" unfolding n_def using assms by (rule floor_lt_pow)
  then have "y / 2 ^ s \<le> 2 ^ nat n / 2 ^ s" by (simp add: divide_right_mono)
  also have "\<dots> = (2::rat) ^ (nat n - s)"
  proof -
    have "(2::rat) ^ nat n = 2 ^ (nat n - s) * 2 ^ s"
      using sn by (simp add: power_add [symmetric])
    then show ?thesis by simp
  qed
  also have "\<dots> = of_int (2 ^ (nat n - s))" by simp
  finally have "rhe (y / 2 ^ s) \<le> 2 ^ (nat n - s)" by (rule rhe_le)
  then have "rhe (y / 2 ^ s) * 2 ^ s \<le> 2 ^ (nat n - s) * 2 ^ s" by simp
  also have "\<dots> = 2 ^ nat n" using sn by (simp add: power_add [symmetric])
  finally have "rhe (y / 2 ^ s) * 2 ^ s \<le> 2 ^ nat n" .
  moreover have "\<bar>y\<bar> = y" using assms by simp
  ultimately show ?thesis
    unfolding rnd_scaled_def Let_def n_def s_def by simp
qed

lemma rnd_scaled_lower:
  assumes "1 \<le> bitlen \<lfloor>y\<rfloor>"
  shows "2 ^ nat (bitlen \<lfloor>y\<rfloor> - 1) \<le> rnd_scaled y"
proof -
  define n where "n = bitlen \<lfloor>y\<rfloor>"
  define s where "s = nat (n - 53)"
  have n1: "1 \<le> n" using assms by (simp add: n_def)
  have sn: "s \<le> nat (n - 1)" using n1 by (simp add: s_def)
  have y0: "0 \<le> y"
  proof -
    have "(0::rat) \<le> 2 ^ nat (bitlen \<lfloor>y\<rfloor> - 1)" by simp
    also have "\<dots> \<le> y" using assms by (rule pow_le_floor)
    finally show ?thesis .
  qed
  have "(2::rat) ^ nat (n - 1) \<le> y" unfolding n_def using assms by (rule pow_le_floor)
  then have "2 ^ nat (n - 1) / 2 ^ s \<le> y / 2 ^ s" by (simp add: divide_right_mono)
  moreover have "(2::rat) ^ nat (n - 1) / 2 ^ s = of_int (2 ^ (nat (n - 1) - s))"
  proof -
    have "(2::rat) ^ nat (n - 1) = 2 ^ (nat (n - 1) - s) * 2 ^ s"
      using sn by (simp add: power_add [symmetric])
    then show ?thesis by simp
  qed
  ultimately have "2 ^ (nat (n - 1) - s) \<le> rhe (y / 2 ^ s)" by (simp add: rhe_ge)
  then have "2 ^ (nat (n - 1) - s) * 2 ^ s \<le> rhe (y / 2 ^ s) * 2 ^ s" by simp
  moreover have "(2::int) ^ (nat (n - 1) - s) * 2 ^ s = 2 ^ nat (n - 1)"
    using sn by (simp add: power_add [symmetric])
  ultimately have "2 ^ nat (n - 1) \<le> rhe (y / 2 ^ s) * 2 ^ s" by linarith
  moreover have "\<bar>y\<bar> = y" using y0 by simp
  ultimately show ?thesis
    unfolding rnd_scaled_def Let_def n_def s_def by simp
qed

lemma rnd_scaled_nonneg: "0 \<le> y \<Longrightarrow> 0 \<le> rnd_scaled y"
  unfolding rnd_scaled_def Let_def
  by (intro mult_nonneg_nonneg rhe_ge) simp_all

lemma rnd_scaled_mono_nonneg:
  assumes "0 \<le> y1" "y1 \<le> y2"
  shows "rnd_scaled y1 \<le> rnd_scaled y2"
proof -
  define n1 where "n1 = bitlen \<lfloor>y1\<rfloor>"
  define n2 where "n2 = bitlen \<lfloor>y2\<rfloor>"
  have y2: "0 \<le> y2" using assms by simp
  have n12: "n1 \<le> n2" unfolding n1_def n2_def using assms(2) by (intro bitlen_mono floor_mono)
  show ?thesis
  proof (cases "nat (n1 - 53) = nat (n2 - 53)")
    case True
    have "y1 / 2 ^ nat (n2 - 53) \<le> y2 / 2 ^ nat (n2 - 53)"
      using assms(2) by (simp add: divide_right_mono)
    then have "rhe (y1 / 2 ^ nat (n2 - 53)) \<le> rhe (y2 / 2 ^ nat (n2 - 53))" by (rule rhe_mono)
    then show ?thesis
      using assms y2 True by (simp add: rnd_scaled_def Let_def n1_def n2_def)
  next
    case False
    with n12 have lt: "n1 < n2" and big: "53 < n2" by auto
    have "rnd_scaled y1 \<le> 2 ^ nat n1" unfolding n1_def using assms(1) by (rule rnd_scaled_upper)
    also have "\<dots> \<le> 2 ^ nat (n2 - 1)" using lt by (intro power_increasing) auto
    also have "\<dots> \<le> rnd_scaled y2" unfolding n2_def using big
      by (intro rnd_scaled_lower) (simp add: n2_def)
    finally show ?thesis .
  qed
qed

lemma rnd_scaled_mono: "y1 \<le> y2 \<Longrightarrow> rnd_scaled y1 \<le> rnd_scaled y2"
proof -
  assume le: "y1 \<le> y2"
  consider "0 \<le> y1" | "y1 < 0" "0 \<le> y2" | "y2 < 0" by linarith
  then show ?thesis
  proof cases
    case 1
    then show ?thesis using le by (rule rnd_scaled_mono_nonneg)
  next
    case 2
    have "rnd_scaled y1 = - rnd_scaled (- y1)" by (simp add: rnd_scaled_neg)
    moreover have "0 \<le> rnd_scaled (- y1)" using 2 by (intro rnd_scaled_nonneg) simp
    moreover have "0 \<le> rnd_scaled y2" using 2 by (intro rnd_scaled_nonneg)
    ultimately show ?thesis by linarith
  next
    case 3
    have "rnd_scaled (- y2) \<le> rnd_scaled (- y1)"
      using 3 le by (intro rnd_scaled_mono_nonneg) simp_all
    then show ?thesis by (simp add: rnd_scaled_neg)
  qed
qed

text \<open>A value with at most 53 significant bits is not changed.\<close>

lemma rnd_scaled_exact_pos:
  assumes "0 < m" "m < 2 ^ 53"
  shows "rnd_scaled (of_int (m * 2 ^ j)) = m * 2 ^ j"
proof -
  have b: "bitlen m \<le> 53"
    using assms by (simp add: bitlen_le_iff_power)
  have "\<bar>of_int (m * 2 ^ j) :: rat\<bar> = of_int (m * 2 ^ j)"
    using assms(1) by simp
  then have fl: "\<lfloor>\<bar>of_int (m * 2 ^ j) :: rat\<bar>\<rfloor> = m * 2 ^ j"
    by (simp only: floor_of_int)
  define s where "s = nat (bitlen m + int j - 53)"
  have sj: "s \<le> j" using b by (simp add: s_def)
  have bl: "bitlen (m * 2 ^ j) = bitlen m + int j" using assms(1) by simp
  have "(of_int (m * 2 ^ j) :: rat) / 2 ^ s = of_int (m * 2 ^ (j - s))"
  proof -
    have "(2::rat) ^ j = 2 ^ (j - s) * 2 ^ s"
      using sj by (simp add: power_add [symmetric])
    then show ?thesis by simp
  qed
  then have "rhe (of_int (m * 2 ^ j) / 2 ^ s) = m * 2 ^ (j - s)" by (simp only: rhe_of_int)
  then have "rhe (of_int (m * 2 ^ j) / 2 ^ s) * 2 ^ s = m * (2 ^ (j - s) * 2 ^ s)" by simp
  also have "\<dots> = m * 2 ^ j" using sj by (simp add: power_add [symmetric])
  finally show ?thesis
    unfolding rnd_scaled_def Let_def fl bl s_def .
qed

lemma rnd_scaled_exact:
  assumes "\<bar>m\<bar> < 2 ^ 53"
  shows "rnd_scaled (of_int (m * 2 ^ j)) = m * 2 ^ j"
proof -
  consider "m = 0" | "0 < m" | "m < 0" by linarith
  then show ?thesis
  proof cases
    case 1
    then show ?thesis by simp
  next
    case 2
    with assms show ?thesis by (intro rnd_scaled_exact_pos) simp_all
  next
    case 3
    then have "rnd_scaled (of_int ((- m) * 2 ^ j)) = (- m) * 2 ^ j"
      using assms by (intro rnd_scaled_exact_pos) simp_all
    then have "rnd_scaled (- of_int (m * 2 ^ j)) = - (m * 2 ^ j)" by simp
    then show ?thesis by (simp add: rnd_scaled_neg)
  qed
qed

lemma rnd_cases:
  obtains "rnd x = PInf" "2 ^ 2098 \<le> rnd_scaled (x * 2 ^ 1074)"
  | "rnd x = NInf" "rnd_scaled (x * 2 ^ 1074) \<le> - (2 ^ 2098)"
  | "rnd x = Fin (of_int (rnd_scaled (x * 2 ^ 1074)) / 2 ^ 1074)"
    "rnd_scaled (x * 2 ^ 1074) < 2 ^ 2098" "- (2 ^ 2098) < rnd_scaled (x * 2 ^ 1074)"
proof -
  let ?r = "rnd_scaled (x * 2 ^ 1074)"
  consider "2 ^ 2098 \<le> ?r" | "\<not> 2 ^ 2098 \<le> ?r" "?r \<le> - (2 ^ 2098)"
    | "\<not> 2 ^ 2098 \<le> ?r" "\<not> ?r \<le> - (2 ^ 2098)" by blast
  then show thesis
  proof cases
    case 1
    then have "rnd x = PInf" unfolding rnd_def Let_def by (simp only: if_True)
    then show ?thesis using 1 by (rule that(1))
  next
    case 2
    then have "rnd x = NInf" unfolding rnd_def Let_def by (simp only: if_True if_False)
    then show ?thesis using 2(2) by (rule that(2))
  next
    case 3
    then have "rnd x = Fin (of_int ?r / 2 ^ 1074)"
      unfolding rnd_def Let_def by (simp only: if_False)
    moreover have "?r < 2 ^ 2098" "- (2 ^ 2098) < ?r" using 3 by linarith+
    ultimately show ?thesis by (rule that(3))
  qed
qed

lemma rnd_not_NaN [simp]: "rnd x \<noteq> NaN"
  by (rule rnd_cases [of x]) simp_all

lemma on_grid_rnd: "on_grid (rnd x)"
proof (rule rnd_cases [of x])
  assume "rnd x = Fin (of_int (rnd_scaled (x * 2 ^ 1074)) / 2 ^ 1074)"
  moreover have "(of_int (rnd_scaled (x * 2 ^ 1074)) :: rat) / 2 ^ 1074 * 2 ^ 1074 =
      of_int (rnd_scaled (x * 2 ^ 1074))" by simp
  ultimately show ?thesis unfolding on_grid_def by (simp only: number.case floor_of_int)
qed (simp_all add: on_grid_def)

lemma rnd_exact:
  assumes m: "\<bar>m\<bar> < 2 ^ 53" and d: "d \<le> 1074"
  shows "rnd (of_int m / 2 ^ d) = Fin (of_int m / 2 ^ d)"
proof -
  have p: "(2::rat) ^ 1074 = 2 ^ (1074 - d) * 2 ^ d"
    using d by (simp only: power_add [symmetric]) simp
  have sc: "of_int m / 2 ^ d * (2::rat) ^ 1074 = of_int (m * 2 ^ (1074 - d))"
    unfolding p by simp
  have rs: "rnd_scaled (of_int m / 2 ^ d * 2 ^ 1074) = m * 2 ^ (1074 - d)"
    unfolding sc using m by (rule rnd_scaled_exact)
  have "\<bar>m * 2 ^ (1074 - d)\<bar> < 2 ^ 53 * 2 ^ 1074"
  proof -
    have "\<bar>m * 2 ^ (1074 - d)\<bar> = \<bar>m\<bar> * 2 ^ (1074 - d)" by (simp add: abs_mult)
    also have "\<dots> < 2 ^ 53 * 2 ^ (1074 - d)" using m by simp
    also have "\<dots> \<le> 2 ^ 53 * (2::int) ^ 1074"
      by (intro mult_left_mono power_increasing) simp_all
    finally show ?thesis .
  qed
  also have "(2::int) ^ 53 * 2 ^ 1074 \<le> 2 ^ 2098"
    by (simp only: power_add [symmetric]) (rule power_increasing; simp)
  finally have bound: "\<bar>m * 2 ^ (1074 - d)\<bar> < 2 ^ 2098" .
  have bk: "(of_int (m * 2 ^ (1074 - d)) :: rat) / 2 ^ 1074 = of_int m / 2 ^ d"
    unfolding p by simp
  show ?thesis
  proof (rule rnd_cases [of "of_int m / 2 ^ d"])
    assume "2 ^ 2098 \<le> rnd_scaled (of_int m / 2 ^ d * 2 ^ 1074)"
    with bound show ?thesis unfolding rs by linarith
  next
    assume "rnd_scaled (of_int m / 2 ^ d * 2 ^ 1074) \<le> - (2 ^ 2098)"
    with bound show ?thesis unfolding rs by linarith
  next
    assume "rnd (of_int m / 2 ^ d) =
      Fin (of_int (rnd_scaled (of_int m / 2 ^ d * 2 ^ 1074)) / 2 ^ 1074)"
    then show ?thesis unfolding rs bk .
  qed
qed

lemma rnd_int: "\<bar>m\<bar> < 2 ^ 53 \<Longrightarrow> rnd (of_int m) = Fin (of_int m)"
  using rnd_exact [of m 0] by simp

lemma rnd_half: "\<bar>m\<bar> < 2 ^ 53 \<Longrightarrow> rnd (of_int m / 2) = Fin (of_int m / 2)"
  using rnd_exact [of m 1] by simp

lemma rnd_0 [simp]: "rnd 0 = Fin 0"
  using rnd_int [of 0] by simp

lemma num_le_simps [simp]:
  "num_le (Fin a) (Fin b) = (a \<le> b)"
  "num_le NaN v = False" "num_le v NaN = False"
  "num_le v PInf = (v \<noteq> NaN)" "num_le NInf v = (v \<noteq> NaN)"
  "num_le PInf (Fin a) = False" "num_le (Fin a) NInf = False" "num_le PInf NInf = False"
  by (cases v; auto simp: num_le_def)+

lemma rnd_mono: "x \<le> y \<Longrightarrow> num_le (rnd x) (rnd y)"
proof -
  assume "x \<le> y"
  then have "x * 2 ^ 1074 \<le> y * 2 ^ 1074" by simp
  then have le: "rnd_scaled (x * 2 ^ 1074) \<le> rnd_scaled (y * 2 ^ 1074)" by (rule rnd_scaled_mono)
  have pos: "(0::int) < 2 ^ 2098" by simp
  show ?thesis
  proof (rule rnd_cases [of y])
    assume "rnd y = PInf"
    then show ?thesis by simp
  next
    assume y: "rnd y = NInf" "rnd_scaled (y * 2 ^ 1074) \<le> - (2 ^ 2098)"
    have "rnd x = NInf"
    proof (rule rnd_cases [of x])
      assume "2 ^ 2098 \<le> rnd_scaled (x * 2 ^ 1074)"
      with le y(2) pos show ?thesis by linarith
    next
      assume "- (2 ^ 2098) < rnd_scaled (x * 2 ^ 1074)"
      with le y(2) show ?thesis by linarith
    qed
    with y(1) show ?thesis by simp
  next
    assume y: "rnd y = Fin (of_int (rnd_scaled (y * 2 ^ 1074)) / 2 ^ 1074)"
      "rnd_scaled (y * 2 ^ 1074) < 2 ^ 2098"
    show ?thesis
    proof (rule rnd_cases [of x])
      assume "2 ^ 2098 \<le> rnd_scaled (x * 2 ^ 1074)"
      with le y(2) show ?thesis by linarith
    next
      assume "rnd x = NInf"
      with y(1) show ?thesis by simp
    next
      assume "rnd x = Fin (of_int (rnd_scaled (x * 2 ^ 1074)) / 2 ^ 1074)"
      with y(1) le show ?thesis by (simp add: divide_right_mono del: power_numeral)
    qed
  qed
qed

lemma rnd_between:
  assumes "rnd lo = Fin lo" "rnd hi = Fin hi" "lo \<le> x" "x \<le> hi"
  obtains a where "rnd x = Fin a" "lo \<le> a" "a \<le> hi"
proof -
  from rnd_mono [OF assms(3)] rnd_mono [OF assms(4)]
  have "num_le (Fin lo) (rnd x)" "num_le (rnd x) (Fin hi)" by (simp_all only: assms(1,2))
  then show ?thesis using that by (cases "rnd x") simp_all
qed

lemma rnd_grid_pos:
  assumes "0 < k"
  shows "num_lt (Fin 0) (rnd (of_int k / 2 ^ 1074))"
proof -
  have "rnd_scaled 1 \<le> rnd_scaled (of_int k)" using assms by (intro rnd_scaled_mono) simp
  moreover have "rnd_scaled 1 = 1" using rnd_scaled_exact [of 1 0] by simp
  ultimately have pos: "1 \<le> rnd_scaled (of_int k / 2 ^ 1074 * 2 ^ 1074)" by simp
  show ?thesis
  proof (rule rnd_cases [of "of_int k / 2 ^ 1074"])
    assume "rnd (of_int k / 2 ^ 1074) =
        Fin (of_int (rnd_scaled (of_int k / 2 ^ 1074 * 2 ^ 1074)) / 2 ^ 1074)"
    moreover have "(0::rat) < of_int (rnd_scaled (of_int k / 2 ^ 1074 * 2 ^ 1074)) / 2 ^ 1074"
      using pos by (intro divide_pos_pos) simp_all
    ultimately show ?thesis by (simp only: num_lt.simps)
  next
    assume "rnd_scaled (of_int k / 2 ^ 1074 * 2 ^ 1074) \<le> - (2 ^ 2098)"
    moreover have "(0::int) \<le> 2 ^ 2098" by simp
    ultimately show ?thesis using pos by linarith
  qed simp
qed

lemma rnd_neg: "rnd (- x) = fneg (rnd x)"
proof -
  have n: "rnd_scaled (- x * 2 ^ 1074) = - rnd_scaled (x * 2 ^ 1074)"
    using rnd_scaled_neg [of "x * 2 ^ 1074"] by simp
  have pos: "(0::int) < 2 ^ 2098" by simp
  show ?thesis
  proof (rule rnd_cases [of x])
    assume x: "rnd x = PInf" "2 ^ 2098 \<le> rnd_scaled (x * 2 ^ 1074)"
    have "rnd (- x) = NInf"
    proof (rule rnd_cases [of "- x"])
      assume "2 ^ 2098 \<le> rnd_scaled (- x * 2 ^ 1074)"
      with x(2) pos show ?thesis unfolding n by linarith
    next
      assume "- (2 ^ 2098) < rnd_scaled (- x * 2 ^ 1074)"
      with x(2) show ?thesis unfolding n by linarith
    qed
    with x(1) show ?thesis by simp
  next
    assume x: "rnd x = NInf" "rnd_scaled (x * 2 ^ 1074) \<le> - (2 ^ 2098)"
    have "rnd (- x) = PInf"
    proof (rule rnd_cases [of "- x"])
      assume "rnd_scaled (- x * 2 ^ 1074) \<le> - (2 ^ 2098)"
      with x(2) pos show ?thesis unfolding n by linarith
    next
      assume "rnd_scaled (- x * 2 ^ 1074) < 2 ^ 2098"
      with x(2) show ?thesis unfolding n by linarith
    qed
    with x(1) show ?thesis by simp
  next
    assume x: "rnd x = Fin (of_int (rnd_scaled (x * 2 ^ 1074)) / 2 ^ 1074)"
      "rnd_scaled (x * 2 ^ 1074) < 2 ^ 2098" "- (2 ^ 2098) < rnd_scaled (x * 2 ^ 1074)"
    have "rnd (- x) = Fin (of_int (rnd_scaled (- x * 2 ^ 1074)) / 2 ^ 1074)"
    proof (rule rnd_cases [of "- x"])
      assume "2 ^ 2098 \<le> rnd_scaled (- x * 2 ^ 1074)"
      with x(3) show ?thesis unfolding n by linarith
    next
      assume "rnd_scaled (- x * 2 ^ 1074) \<le> - (2 ^ 2098)"
      with x(2) show ?thesis unfolding n by linarith
    qed
    then show ?thesis unfolding n x(1) by (simp del: power_numeral)
  qed
qed

lemma num_lt_irrefl [simp]: "\<not> num_lt a a"
  by (cases a) simp_all

lemma num_le_refl: "a \<noteq> NaN \<Longrightarrow> num_le a a"
  by (cases a) simp_all

lemma num_not_lt: "a \<noteq> NaN \<Longrightarrow> b \<noteq> NaN \<Longrightarrow> \<not> num_lt a b \<longleftrightarrow> num_le b a"
  by (cases a; cases b) auto

lemma num_le_trans: "num_le a b \<Longrightarrow> num_le b c \<Longrightarrow> num_le a c"
  by (cases a; cases b; cases c) auto

lemma num_lt_le_trans: "num_lt a b \<Longrightarrow> num_le b c \<Longrightarrow> num_lt a c"
  by (cases a; cases b; cases c) auto

lemma num_lt_imp_le: "num_lt a b \<Longrightarrow> num_le a b"
  by (simp add: num_le_def)

lemma fadd_not_Fin_or_grid: "on_grid (fadd a b)"
  by (cases a; cases b) (simp_all add: on_grid_rnd, simp_all add: on_grid_def)

text \<open>The sign of a difference of two numbers on the grid is the order of the two numbers:
  the difference of two distinct finite values is at least one unit of the grid, and rounds to
  a value of the same sign.\<close>

lemma on_grid_FinE:
  assumes "on_grid (Fin a)"
  obtains k :: int where "a = of_int k / 2 ^ 1074"
proof -
  from assms have "a * 2 ^ 1074 = of_int \<lfloor>a * 2 ^ 1074\<rfloor>" by (simp add: on_grid_def del: power_numeral)
  then have "a = of_int \<lfloor>a * 2 ^ 1074\<rfloor> / 2 ^ 1074"
    by (simp add: field_simps del: power_numeral)
  then show ?thesis by (rule that)
qed

lemma rnd_diff_pos_iff:
  assumes "on_grid (Fin a)" "on_grid (Fin b)"
  shows "num_lt (Fin 0) (rnd (b - a)) \<longleftrightarrow> a < b"
proof -
  from assms(1) obtain ka :: int where a: "a = of_int ka / 2 ^ 1074" by (rule on_grid_FinE)
  from assms(2) obtain kb :: int where b: "b = of_int kb / 2 ^ 1074" by (rule on_grid_FinE)
  have d: "b - a = of_int (kb - ka) / 2 ^ 1074"
    unfolding a b by (simp add: diff_divide_distrib del: power_numeral)
  have ord: "a < b \<longleftrightarrow> ka < kb"
    unfolding a b by (simp add: divide_less_cancel del: power_numeral)
  show ?thesis
  proof (cases "ka < kb")
    case True
    then have "num_lt (Fin 0) (rnd (of_int (kb - ka) / 2 ^ 1074))"
      by (intro rnd_grid_pos) simp
    with True show ?thesis unfolding d ord by simp
  next
    case False
    then have "b - a \<le> 0" unfolding d by (simp add: divide_le_0_iff del: power_numeral)
    from rnd_mono [OF this] have "num_le (rnd (b - a)) (Fin 0)" by simp
    then have "\<not> num_lt (Fin 0) (rnd (b - a))"
      by (cases "rnd (b - a)") auto
    with False show ?thesis unfolding ord by simp
  qed
qed

lemma fsub_pos_iff:
  assumes "on_grid a" "on_grid b" "a \<noteq> NaN" "b \<noteq> NaN"
  shows "num_lt (Fin 0) (fsub b a) \<longleftrightarrow> num_lt a b"
proof (cases a; cases b)
  fix x y assume ab: "a = Fin x" "b = Fin y"
  have "y + - x = y - x" by simp
  with rnd_diff_pos_iff [of x y] assms(1,2) show ?thesis
    by (simp add: ab fsub_def)
qed (use assms in \<open>simp_all add: fsub_def\<close>)

lemma rnd_numeral: "(numeral n :: int) < 2 ^ 53 \<Longrightarrow> rnd (numeral n) = Fin (numeral n)"
  using rnd_int [of "numeral n"] by simp

lemma rnd_1 [simp]: "rnd 1 = Fin 1"
  using rnd_int [of 1] by simp

lemma rnd_numeral_half:
  "(numeral n :: int) < 2 ^ 53 \<Longrightarrow> rnd (numeral n / 2) = Fin (numeral n / 2)"
  using rnd_half [of "numeral n"] by simp

lemma rnd_one_half [simp]: "rnd (1 / 2) = Fin (1 / 2)"
  using rnd_half [of 1] by simp

lemma rnd_of_nat: "n < 2 ^ 53 \<Longrightarrow> rnd (of_nat n) = Fin (of_nat n)"
proof -
  assume "n < 2 ^ 53"
  then have "int n < 2 ^ 53" by (metis of_nat_less_iff of_nat_numeral of_nat_power)
  then have "\<bar>int n\<bar> < 2 ^ 53" by simp
  from rnd_int [OF this] show ?thesis by simp
qed

lemma rnd_half_units:
  assumes "k < 2 ^ 50"
  shows "rnd (5 / 2 * of_nat k) = Fin (5 / 2 * of_nat k)"
proof -
  have "int k < 2 ^ 50" using assms by (metis of_nat_less_iff of_nat_numeral of_nat_power)
  then have "\<bar>5 * int k\<bar> < 2 ^ 53" by simp
  from rnd_half [OF this] show ?thesis by simp
qed

lemma math_round_of_nat: "math_round (Fin (of_nat n)) = Fin (of_nat n)"
proof -
  have "\<lfloor>(of_int (int n) :: rat) + 1 / 2\<rfloor> = int n"
    by (rule floor_unique) simp_all
  then show ?thesis by simp
qed

lemma math_round_numeral: "math_round (Fin (numeral n)) = Fin (numeral n)"
  using math_round_of_nat [of "numeral n"] by simp

lemma or_zero_Fin [simp]: "or_zero (Fin a) = Fin a"
  by (simp add: or_zero_def)

text \<open>The value of the rounding at an argument whose binade is known: the significand is
  the rounded quotient by the quantum.\<close>

lemma rnd_scaled_at:
  fixes y :: rat
  assumes lo: "2 ^ (52 + s) \<le> y" and hi: "y < 2 ^ (53 + s)"
  shows "rnd_scaled y = rhe (y / 2 ^ s) * 2 ^ s"
proof -
  have y0: "0 \<le> y" using lo by (rule order_trans [rotated]) simp
  have "(of_int (2 ^ (52 + s)) :: rat) \<le> y" using lo by simp
  then have f1: "2 ^ (52 + s) \<le> \<lfloor>y\<rfloor>" by (simp only: le_floor_iff)
  have "y < of_int (2 ^ (53 + s))" using hi by simp
  then have f2: "\<lfloor>y\<rfloor> < 2 ^ (53 + s)" by (simp only: floor_less_iff)
  have "53 + s = Suc (52 + s)" by simp
  then have "(2::int) ^ (53 + s) = 2 * 2 ^ (52 + s)" by (simp only: power_Suc)
  with f2 have f3: "\<lfloor>y\<rfloor> - 2 ^ (52 + s) < 2 ^ (52 + s)" by linarith
  have f4: "0 \<le> \<lfloor>y\<rfloor> - 2 ^ (52 + s)" using f1 by linarith
  have "bitlen (2 ^ (52 + s) + (\<lfloor>y\<rfloor> - 2 ^ (52 + s))) = int (52 + s + 1)"
    using f4 f3 by (rule bitlen_twopow_add_eq)
  then have "bitlen \<lfloor>y\<rfloor> = 53 + int s" by simp
  then have "nat (bitlen \<lfloor>\<bar>y\<bar>\<rfloor> - 53) = s" using y0 by simp
  then show ?thesis by (simp add: rnd_scaled_def Let_def)
qed

lemma rhe_le_pow:
  assumes "t < 2 ^ n"
  shows "rhe t \<le> 2 ^ n"
proof -
  have "t \<le> of_int (2 ^ n)" using assms by simp
  then show ?thesis by (rule rhe_le)
qed

lemma rhe_pos:
  assumes "1 \<le> t"
  shows "0 < rhe t"
proof -
  have "of_int 1 \<le> t" using assms by simp
  then have "1 \<le> rhe t" by (rule rhe_ge)
  then show ?thesis by simp
qed

lemma rnd_Fin_of_scaled:
  assumes "rnd_scaled (x * 2 ^ 1074) = r" "0 \<le> r" "r < 2 ^ 2098"
  shows "rnd x = Fin (of_int r / 2 ^ 1074)"
proof (rule rnd_cases [of x])
  assume "2 ^ 2098 \<le> rnd_scaled (x * 2 ^ 1074)"
  with assms show ?thesis by simp
next
  assume "rnd_scaled (x * 2 ^ 1074) \<le> - (2 ^ 2098)"
  moreover have "(0::int) < 2 ^ 2098" by simp
  ultimately show ?thesis using assms by linarith
next
  assume "rnd x = Fin (of_int (rnd_scaled (x * 2 ^ 1074)) / 2 ^ 1074)"
  then show ?thesis by (simp only: assms(1))
qed

lemma rnd_at:
  assumes lo: "2 ^ 52 \<le> x * 2 ^ d" and hi: "x * 2 ^ d < 2 ^ 53" and d: "d \<le> 1074"
  shows "rnd x = Fin (of_int (rhe (x * 2 ^ d)) / 2 ^ d)"
proof -
  define s where "s = 1074 - d"
  have p: "(2::rat) ^ 1074 = 2 ^ d * 2 ^ s"
    using d unfolding s_def by (simp only: power_add [symmetric]) simp
  have y: "x * 2 ^ 1074 = x * 2 ^ d * 2 ^ s" unfolding p by simp
  have l: "2 ^ (52 + s) \<le> x * 2 ^ 1074"
    unfolding y power_add using lo by (intro mult_right_mono) simp_all
  have h: "x * 2 ^ 1074 < 2 ^ (53 + s)"
    unfolding y power_add using hi by (intro mult_strict_right_mono) simp_all
  have q: "x * 2 ^ 1074 / 2 ^ s = x * 2 ^ d" unfolding y by simp
  have r: "rnd_scaled (x * 2 ^ 1074) = rhe (x * 2 ^ d) * 2 ^ s"
    using rnd_scaled_at [OF l h] unfolding q .
  have "(1::rat) \<le> 2 ^ 52" by simp
  from this lo have "1 \<le> x * 2 ^ d" by (rule order_trans)
  then have pos: "0 < rhe (x * 2 ^ d)" by (rule rhe_pos)
  have le: "rhe (x * 2 ^ d) \<le> 2 ^ 53" using hi by (rule rhe_le_pow)
  have "rhe (x * 2 ^ d) * 2 ^ s \<le> 2 ^ 53 * 2 ^ s" using le by simp
  also have "\<dots> = (2::int) ^ (53 + s)" by (simp only: power_add)
  also have "\<dots> < 2 ^ 2098" unfolding s_def by (intro power_strict_increasing) simp_all
  finally have b: "rhe (x * 2 ^ d) * 2 ^ s < 2 ^ 2098" .
  have nn: "0 \<le> rhe (x * 2 ^ d) * 2 ^ s" using pos by simp
  have "rnd x = Fin (of_int (rhe (x * 2 ^ d) * 2 ^ s) / 2 ^ 1074)"
    using r nn b by (rule rnd_Fin_of_scaled)
  also have "of_int (rhe (x * 2 ^ d) * 2 ^ s) / (2::rat) ^ 1074 = of_int (rhe (x * 2 ^ d)) / 2 ^ d"
    unfolding p by simp
  finally show ?thesis .
qed

lemma rnd_at_large:
  assumes lo: "2 ^ 52 \<le> x / 2 ^ e" and hi: "x / 2 ^ e < 2 ^ 53" and e: "e \<le> 970"
  shows "rnd x = Fin (of_int (rhe (x / 2 ^ e)) * 2 ^ e)"
proof -
  define s where "s = 1074 + e"
  have p: "(2::rat) ^ s = 2 ^ 1074 * 2 ^ e" unfolding s_def by (simp only: power_add)
  have y: "x * 2 ^ 1074 = x / 2 ^ e * 2 ^ s" unfolding p by simp
  have l: "2 ^ (52 + s) \<le> x * 2 ^ 1074"
    unfolding y power_add using lo by (intro mult_right_mono) simp_all
  have h: "x * 2 ^ 1074 < 2 ^ (53 + s)"
    unfolding y power_add using hi by (intro mult_strict_right_mono) simp_all
  have q: "x * 2 ^ 1074 / 2 ^ s = x / 2 ^ e" unfolding y by simp
  have r: "rnd_scaled (x * 2 ^ 1074) = rhe (x / 2 ^ e) * 2 ^ s"
    using rnd_scaled_at [OF l h] unfolding q .
  have "(1::rat) \<le> 2 ^ 52" by simp
  from this lo have "1 \<le> x / 2 ^ e" by (rule order_trans)
  then have pos: "0 < rhe (x / 2 ^ e)" by (rule rhe_pos)
  have le: "rhe (x / 2 ^ e) \<le> 2 ^ 53" using hi by (rule rhe_le_pow)
  have "rhe (x / 2 ^ e) * 2 ^ s \<le> 2 ^ 53 * 2 ^ s" using le by simp
  also have "\<dots> = (2::int) ^ (53 + s)" by (simp only: power_add)
  also have "\<dots> < 2 ^ 2098" unfolding s_def using e by (intro power_strict_increasing) simp_all
  finally have b: "rhe (x / 2 ^ e) * 2 ^ s < 2 ^ 2098" .
  have nn: "0 \<le> rhe (x / 2 ^ e) * 2 ^ s" using pos by simp
  have "rnd x = Fin (of_int (rhe (x / 2 ^ e) * 2 ^ s) / 2 ^ 1074)"
    using r nn b by (rule rnd_Fin_of_scaled)
  also have "of_int (rhe (x / 2 ^ e) * 2 ^ s) / (2::rat) ^ 1074 = of_int (rhe (x / 2 ^ e)) * 2 ^ e"
  proof -
    define N :: rat where "N = 2 ^ 1074"
    have N: "N \<noteq> 0" by (simp add: N_def)
    have "(of_int (rhe (x / 2 ^ e) * 2 ^ s) :: rat) / N = of_int (rhe (x / 2 ^ e)) * 2 ^ s / N"
      by simp
    also have "\<dots> = of_int (rhe (x / 2 ^ e)) * (N * 2 ^ e) / N"
      unfolding N_def p ..
    also have "\<dots> = of_int (rhe (x / 2 ^ e)) * 2 ^ e" using N by simp
    finally show ?thesis unfolding N_def .
  qed
  finally show ?thesis .
qed

text \<open>The rounding of a quotient of integers to an integer, by division with remainder.\<close>

lemma rhe_divide:
  assumes b: "0 < b"
  shows "rhe (of_int a / of_int b) =
     (if 2 * (a mod b) < b then a div b
      else if b < 2 * (a mod b) then a div b + 1
      else if even (a div b) then a div b else a div b + 1)"
proof -
  have b0: "(0::rat) < of_int b" using b by simp
  have f: "\<lfloor>(of_int a :: rat) / of_int b\<rfloor> = a div b" by (rule floor_divide_of_int_eq)
  have "(of_int a :: rat) = of_int (a div b * b + a mod b)" by simp
  also have "\<dots> = of_int (a div b) * of_int b + of_int (a mod b)" by (simp only: of_int_add of_int_mult)
  finally have "(of_int a :: rat) / of_int b = of_int (a div b) + of_int (a mod b) / of_int b"
    using b0 by (simp add: add_divide_distrib)
  then have d: "(of_int a :: rat) / of_int b - of_int (a div b) = of_int (a mod b) / of_int b"
    by simp
  have lt: "(of_int (a mod b) :: rat) / of_int b < 1 / 2 \<longleftrightarrow> 2 * (a mod b) < b"
  proof -
    have "(of_int (a mod b) :: rat) / of_int b < 1 / 2 \<longleftrightarrow>
        (of_int (2 * (a mod b)) :: rat) < of_int b"
      using b0 by (simp add: divide_less_eq mult.commute)
    then show ?thesis by (simp only: of_int_less_iff)
  qed
  have gt: "(1 / 2 :: rat) < of_int (a mod b) / of_int b \<longleftrightarrow> b < 2 * (a mod b)"
  proof -
    have "(1 / 2 :: rat) < of_int (a mod b) / of_int b \<longleftrightarrow>
        (of_int b :: rat) < of_int (2 * (a mod b))"
      using b0 by (simp add: less_divide_eq mult.commute)
    then show ?thesis by (simp only: of_int_less_iff)
  qed
  show ?thesis unfolding rhe_def Let_def f d lt gt ..
qed

lemma rhe_numeral_divide:
  "rhe (numeral a / numeral b) =
     (if 2 * (numeral a mod numeral b) < (numeral b :: int) then numeral a div numeral b
      else if (numeral b :: int) < 2 * (numeral a mod numeral b) then numeral a div numeral b + 1
      else if even (numeral a div numeral b :: int) then numeral a div numeral b
      else numeral a div numeral b + 1)"
  using rhe_divide [of "numeral b" "numeral a"] by simp

lemma rhe_numeral: "rhe (numeral a) = numeral a"
  using rhe_of_int [of "numeral a"] by simp

lemmas rhe_eval = rhe_numeral_divide rhe_numeral

text \<open>The rounding of a few literals met below.\<close>

lemma rnd_9_10: "rnd (9 / 10) = Fin (8106479329266893 / 2 ^ 53)"
  using rnd_at [of "9 / 10" 53] by (simp add: rhe_eval)

lemma rnd_23_40: "rnd (23 / 40) = Fin (2589569785738035 / 2 ^ 52)"
  using rnd_at [of "23 / 40" 53] by (simp add: rhe_eval)


lemma fifth_lt_third: "num_lt (rnd (1 / 5)) (rnd (1 / 3))"
proof -
  have r4: "rnd (of_int 1 / 2 ^ 2) = Fin (of_int 1 / 2 ^ 2)" by (intro rnd_exact) simp_all
  have r8: "rnd (of_int 1 / 2 ^ 3) = Fin (of_int 1 / 2 ^ 3)" by (intro rnd_exact) simp_all
  have r16: "rnd (of_int 5 / 2 ^ 4) = Fin (of_int 5 / 2 ^ 4)" by (intro rnd_exact) simp_all
  have r2: "rnd (of_int 1 / 2 ^ 1) = Fin (of_int 1 / 2 ^ 1)" by (intro rnd_exact) simp_all
  have a1: "of_int 1 / 2 ^ 3 \<le> (1 / 5 :: rat)" and a2: "(1 / 5 :: rat) \<le> of_int 1 / 2 ^ 2"
    by simp_all
  have b1: "of_int 5 / 2 ^ 4 \<le> (1 / 3 :: rat)" and b2: "(1 / 3 :: rat) \<le> of_int 1 / 2 ^ 1"
    by simp_all
  from rnd_between [OF r8 r4 a1 a2] obtain a where
    a: "rnd (1 / 5) = Fin a" "a \<le> of_int 1 / 2 ^ 2" by blast
  from rnd_between [OF r16 r2 b1 b2] obtain b where
    b: "rnd (1 / 3) = Fin b" "of_int 5 / 2 ^ 4 \<le> b" by blast
  have "a < b" using a(2) b(2) by simp
  then show ?thesis by (simp add: a(1) b(1))
qed

lemma not_third_le_fifth: "\<not> num_le (rnd (1 / 3)) (rnd (1 / 5))"
  using fifth_lt_third by (cases "rnd (1 / 3)"; cases "rnd (1 / 5)") auto

section \<open>The stable sort and the representative set\<close>

lemma length_insert_by: "length (insert_by cmp x ys) = Suc (length ys)"
  by (induction ys) auto

lemma length_sort_by: "length (sort_by cmp xs) = length xs"
  by (induction xs) (auto simp: sort_by_def length_insert_by)

lemma sort_by_Nil_iff: "sort_by cmp xs = [] \<longleftrightarrow> xs = []"
  using length_sort_by [of cmp xs] by (metis length_0_conv)

lemma sort_by_Cons: "sort_by cmp (x # xs) = insert_by cmp x (sort_by cmp xs)"
  by (simp add: sort_by_def)

lemma hd_insert_by:
  "ys \<noteq> [] \<Longrightarrow>
   hd (insert_by cmp x ys) = (if num_lt (Fin 0) (cmp x (hd ys)) then hd ys else x)"
  by (cases ys) auto

lemma hd_sort_by_mem: "xs \<noteq> [] \<Longrightarrow> hd (sort_by cmp xs) \<in> set xs"
proof (induction xs)
  case Nil
  then show ?case by simp
next
  case (Cons x xs)
  show ?case
  proof (cases "xs = []")
    case True
    then show ?thesis by (simp add: sort_by_def)
  next
    case False
    then have ne: "sort_by cmp xs \<noteq> []" by (simp add: sort_by_Nil_iff)
    from Cons.IH [OF False] show ?thesis
      by (simp add: sort_by_Cons hd_insert_by [OF ne])
  qed
qed

lemma hd_sort_by_first_max:
  fixes k :: "'a \<Rightarrow> number"
  assumes "xs \<noteq> []"
    and "\<forall>x\<in>set xs. k x \<noteq> NaN"
    and "\<forall>a\<in>set xs. \<forall>b\<in>set xs. num_lt (Fin 0) (cmp a b) \<longleftrightarrow> num_lt (k a) (k b)"
  shows "\<exists>i<length xs. hd (sort_by cmp xs) = xs ! i \<and>
       (\<forall>j<length xs. num_le (k (xs ! j)) (k (xs ! i))) \<and>
       (\<forall>j<i. num_lt (k (xs ! j)) (k (xs ! i)))"
  using assms
proof (induction xs)
  case Nil
  then show ?case by simp
next
  case (Cons x xs)
  have kx: "k x \<noteq> NaN" using Cons.prems(2) by simp
  show ?case
  proof (cases "xs = []")
    case True
    then show ?thesis using kx by (simp add: sort_by_def num_le_refl)
  next
    case False
    have "\<forall>x\<in>set xs. k x \<noteq> NaN" using Cons.prems(2) by simp
    moreover have "\<forall>a\<in>set xs. \<forall>b\<in>set xs. num_lt (Fin 0) (cmp a b) \<longleftrightarrow> num_lt (k a) (k b)"
      using Cons.prems(3) by simp
    ultimately obtain i where i: "i < length xs"
      and hd: "hd (sort_by cmp xs) = xs ! i"
      and mx: "\<forall>j<length xs. num_le (k (xs ! j)) (k (xs ! i))"
      and fst: "\<forall>j<i. num_lt (k (xs ! j)) (k (xs ! i))"
      using Cons.IH [OF False] by blast
    have mem: "xs ! i \<in> set xs" using i by simp
    have ky: "k (xs ! i) \<noteq> NaN" using Cons.prems(2) mem by simp
    have ne: "sort_by cmp xs \<noteq> []" using False by (simp add: sort_by_Nil_iff)
    have c: "num_lt (Fin 0) (cmp x (xs ! i)) \<longleftrightarrow> num_lt (k x) (k (xs ! i))"
      using Cons.prems(3) mem by simp
    have H: "hd (sort_by cmp (x # xs)) = (if num_lt (k x) (k (xs ! i)) then xs ! i else x)"
      by (simp add: sort_by_Cons hd_insert_by [OF ne] hd c)
    show ?thesis
    proof (cases "num_lt (k x) (k (xs ! i))")
      case False
      then have yx: "num_le (k (xs ! i)) (k x)" using kx ky by (simp add: num_not_lt)
      have "\<forall>j<length (x # xs). num_le (k ((x # xs) ! j)) (k x)"
      proof (intro allI impI)
        fix j assume "j < length (x # xs)"
        then show "num_le (k ((x # xs) ! j)) (k x)"
          using mx yx kx by (cases j) (auto intro: num_le_trans num_le_refl)
      qed
      then show ?thesis using H False by (intro exI [of _ 0]) simp
    next
      case True
      have a: "\<forall>j<length (x # xs). num_le (k ((x # xs) ! j)) (k ((x # xs) ! Suc i))"
      proof (intro allI impI)
        fix j assume "j < length (x # xs)"
        then show "num_le (k ((x # xs) ! j)) (k ((x # xs) ! Suc i))"
          using mx True by (cases j) (auto intro: num_lt_imp_le)
      qed
      have b: "\<forall>j<Suc i. num_lt (k ((x # xs) ! j)) (k ((x # xs) ! Suc i))"
      proof (intro allI impI)
        fix j assume "j < Suc i"
        then show "num_lt (k ((x # xs) ! j)) (k ((x # xs) ! Suc i))"
          using fst True by (cases j) auto
      qed
      show ?thesis using H True a b i by (intro exI [of _ "Suc i"]) simp
    qed
  qed
qed

text \<open>
  With this, \<^verbatim>\<open>computeSuggestion\<close> is the suggestion computed from the head of the sorted
  list whenever a set of the exercise exists.
\<close>

lemma computeSuggestion_eq:
  "computeSuggestion ex sets =
     (let relevant = filter (\<lambda>s. exerciseId s = ex_id ex) sets in
      if relevant = [] then None
      else Some (suggestFrom ex (hd (sort_by by_effectiveReps_desc (map (score ex) relevant)))))"
proof -
  have "sort_by by_effectiveReps_desc (map (score ex) rel) \<noteq> []" if "rel \<noteq> []" for rel
    using that by (simp add: sort_by_Nil_iff)
  then show ?thesis
    by (auto simp: computeSuggestion_def Let_def split: list.splits)
qed

lemma best_suggestFrom: "best (suggestFrom ex b) = b"
  by (simp add: suggestFrom_def Let_def split: prod.splits)

lemma score_simps:
  "sc_s (score ex s) = s"
  "effectiveReps (score ex s) =
     fadd (cleanReps s) (fmul (dirtyReps s) (dirtyPenalty (repScheme ex)))"
  "dirtyRatio (score ex s) =
     (if num_eq (fadd (cleanReps s) (dirtyReps s)) (Fin 0) then Fin 0
      else fdiv (dirtyReps s) (fadd (cleanReps s) (dirtyReps s)))"
  "weightTotal (score ex s) = setTotalWeight ex s"
  "totalReps (score ex s) = fadd (cleanReps s) (dirtyReps s)"
  by (simp_all add: score_def Let_def)

lemma hd_sort_by_scored:
  assumes "rel \<noteq> []"
    and "\<forall>s\<in>set rel. effectiveReps (score ex s) \<noteq> NaN"
  shows "\<exists>i<length rel.
     hd (sort_by by_effectiveReps_desc (map (score ex) rel)) = score ex (rel ! i) \<and>
     (\<forall>j<length rel.
        num_le (effectiveReps (score ex (rel ! j))) (effectiveReps (score ex (rel ! i)))) \<and>
     (\<forall>j<i. num_lt (effectiveReps (score ex (rel ! j))) (effectiveReps (score ex (rel ! i))))"
proof -
  let ?xs = "map (score ex) rel"
  have ne: "?xs \<noteq> []" using assms(1) by simp
  have nan: "\<forall>x\<in>set ?xs. effectiveReps x \<noteq> NaN" using assms(2) by simp
  have grid: "on_grid (effectiveReps x)" if "x \<in> set ?xs" for x
    using that by (auto simp: score_simps fadd_not_Fin_or_grid)
  have cmp: "\<forall>a\<in>set ?xs. \<forall>b\<in>set ?xs.
      num_lt (Fin 0) (by_effectiveReps_desc a b) \<longleftrightarrow> num_lt (effectiveReps a) (effectiveReps b)"
    unfolding by_effectiveReps_desc_def using grid nan by (intro ballI fsub_pos_iff) auto
  from hd_sort_by_first_max [OF ne nan cmp]
  obtain i where "i < length ?xs"
    and "hd (sort_by by_effectiveReps_desc ?xs) = ?xs ! i"
    and "\<forall>j<length ?xs. num_le (effectiveReps (?xs ! j)) (effectiveReps (?xs ! i))"
    and "\<forall>j<i. num_lt (effectiveReps (?xs ! j)) (effectiveReps (?xs ! i))"
    by blast
  then show ?thesis by (intro exI [of _ i]) auto
qed

lemma computeSuggestion_Some:
  assumes "filter (\<lambda>s. exerciseId s = ex_id ex) sets \<noteq> []"
  shows "\<exists>r. r \<in> set sets \<and> exerciseId r = ex_id ex \<and>
            computeSuggestion ex sets = Some (suggestFrom ex (score ex r))"
proof -
  let ?rel = "filter (\<lambda>s. exerciseId s = ex_id ex) sets"
  have ne: "map (score ex) ?rel \<noteq> []" using assms by simp
  from hd_sort_by_mem [OF ne, of by_effectiveReps_desc]
  obtain r where r: "r \<in> set ?rel"
    and hd: "hd (sort_by by_effectiveReps_desc (map (score ex) ?rel)) = score ex r"
    by auto
  from r have "r \<in> set sets \<and> exerciseId r = ex_id ex" by simp
  moreover have "computeSuggestion ex sets = Some (suggestFrom ex (score ex r))"
    using assms hd by (simp add: computeSuggestion_eq Let_def)
  ultimately show ?thesis by blast
qed

lemma computeSuggestion_single:
  "exerciseId s = ex_id ex \<Longrightarrow> computeSuggestion ex [s] = Some (suggestFrom ex (score ex s))"
  by (simp add: computeSuggestion_eq sort_by_def)

text \<open>
  Claim C1 states that the representative set maximises \<open>effectiveReps\<close> for every
  exercise and every non-empty list of its sets. \<open>effectiveReps\<close> is the number that
  \<^verbatim>\<open>s.cleanReps + s.dirtyReps * scheme.dirtyPenalty\<close> evaluates to, and it can be NaN: with
  the penalty \<^verbatim>\<open>Infinity\<close> a set without dirty reps gets \<open>5 + 0 * Infinity\<close>, which is NaN,
  and a set with one clean and one dirty rep gets \<^verbatim>\<open>Infinity\<close>. The comparator then returns
  NaN, the sort leaves the two sets in place, and the first one is selected, whose
  \<open>effectiveReps\<close> NaN is not greater than or equal to the other's.
\<close>

theorem C1_counterexample:
  "filter (\<lambda>s. exerciseId s = ex_id exInf) [set_clean, set_mixed] = [set_clean, set_mixed] \<and>
   map (\<lambda>s. fadd (cleanReps s) (fmul (dirtyReps s) (dirtyPenalty (repScheme exInf))))
     [set_clean, set_mixed] = [NaN, PInf] \<and>
   map_option (\<lambda>sg. (sc_s (best sg), effectiveReps (best sg)))
     (computeSuggestion exInf [set_clean, set_mixed]) = Some (set_clean, NaN) \<and>
   num_le PInf NaN = False"
  by (simp add: computeSuggestion_eq sort_by_def by_effectiveReps_desc_def fsub_def
      best_suggestFrom score_simps set_clean_def set_mixed_def mkSet_def exInf_def mkEx_def)

text \<open>
  Claim C1, amended. Let \<open>effectiveReps\<close> of a set be the binary64 number that
  \<open>cleanReps + dirtyReps * dirtyPenalty\<close> evaluates to, and let it be NaN for none of the
  exercise's sets (as it is whenever the three numbers are finite). Whenever the exercise has at
  least one set in the list, the representative set \<open>sc_s (best sg)\<close> of the suggestion is an
  element \<open>relevant ! i\<close> of the exercise's sets whose \<open>effectiveReps\<close> is maximal, and
  every set before it in the original order has strictly smaller \<open>effectiveReps\<close>: among
  ties the first one is selected.
\<close>

theorem C1_representative_set:
  assumes rel: "relevant = filter (\<lambda>s. exerciseId s = ex_id ex) sets"
    and ne: "relevant \<noteq> []"
    and nan: "\<forall>s\<in>set relevant.
        fadd (cleanReps s) (fmul (dirtyReps s) (dirtyPenalty (repScheme ex))) \<noteq> NaN"
  shows "\<exists>sg i. computeSuggestion ex sets = Some sg \<and> i < length relevant \<and>
     sc_s (best sg) = relevant ! i \<and>
     effectiveReps (best sg) =
       fadd (cleanReps (relevant ! i))
         (fmul (dirtyReps (relevant ! i)) (dirtyPenalty (repScheme ex))) \<and>
     (\<forall>j<length relevant.
        num_le (fadd (cleanReps (relevant ! j))
                  (fmul (dirtyReps (relevant ! j)) (dirtyPenalty (repScheme ex))))
               (fadd (cleanReps (relevant ! i))
                  (fmul (dirtyReps (relevant ! i)) (dirtyPenalty (repScheme ex))))) \<and>
     (\<forall>j<i.
        num_lt (fadd (cleanReps (relevant ! j))
                  (fmul (dirtyReps (relevant ! j)) (dirtyPenalty (repScheme ex))))
               (fadd (cleanReps (relevant ! i))
                  (fmul (dirtyReps (relevant ! i)) (dirtyPenalty (repScheme ex)))))"
proof -
  have nan': "\<forall>s\<in>set relevant. effectiveReps (score ex s) \<noteq> NaN"
    using nan by (simp add: score_simps)
  from hd_sort_by_scored [OF ne nan'] obtain i where i: "i < length relevant"
    and hd: "hd (sort_by by_effectiveReps_desc (map (score ex) relevant)) = score ex (relevant ! i)"
    and mx: "\<forall>j<length relevant.
        num_le (effectiveReps (score ex (relevant ! j))) (effectiveReps (score ex (relevant ! i)))"
    and fst: "\<forall>j<i.
        num_lt (effectiveReps (score ex (relevant ! j))) (effectiveReps (score ex (relevant ! i)))"
    by blast
  have cs: "computeSuggestion ex sets = Some (suggestFrom ex (score ex (relevant ! i)))"
    using ne rel hd by (simp add: computeSuggestion_eq Let_def)
  show ?thesis
    using cs i mx fst
    by (intro exI [of _ "suggestFrom ex (score ex (relevant ! i))"] exI [of _ i])
       (simp add: best_suggestFrom score_simps)
qed

theorem C1_representative_set_witness:
  "[set_a, set_c] = filter (\<lambda>s. exerciseId s = ex_id exCable) [set_a, set_b, set_c] \<and>
   map (\<lambda>s. fadd (cleanReps s) (fmul (dirtyReps s) (dirtyPenalty (repScheme exCable))))
     [set_a, set_c] = [Fin 10, Fin 10] \<and>
   (\<exists>sg. computeSuggestion exCable [set_a, set_b, set_c] = Some sg \<and> sc_s (best sg) = set_a \<and>
      effectiveReps (best sg) = Fin 10)"
proof -
  have h1: "[set_a, set_c] = filter (\<lambda>s. exerciseId s = ex_id exCable) [set_a, set_b, set_c]"
    by (simp add: set_a_def set_b_def set_c_def mkSet_def exCable_def mkEx_def)
  have h2: "[set_a, set_c] \<noteq> []" by simp
  have ev: "map (\<lambda>s. fadd (cleanReps s) (fmul (dirtyReps s) (dirtyPenalty (repScheme exCable))))
     [set_a, set_c] = [Fin 10, Fin 10]"
    by (simp add: set_a_def set_c_def mkSet_def exCable_def mkEx_def rnd_numeral)
  have h3: "\<forall>s\<in>set [set_a, set_c].
      fadd (cleanReps s) (fmul (dirtyReps s) (dirtyPenalty (repScheme exCable))) \<noteq> NaN"
    using ev by simp
  from C1_representative_set [OF h1 h2 h3] obtain sg i where
    cs: "computeSuggestion exCable [set_a, set_b, set_c] = Some sg"
    and i: "i < length [set_a, set_c]" and s: "sc_s (best sg) = [set_a, set_c] ! i"
    and e: "effectiveReps (best sg) = fadd (cleanReps ([set_a, set_c] ! i))
          (fmul (dirtyReps ([set_a, set_c] ! i)) (dirtyPenalty (repScheme exCable)))"
    and fst: "\<forall>j<i. num_lt
          (fadd (cleanReps ([set_a, set_c] ! j))
             (fmul (dirtyReps ([set_a, set_c] ! j)) (dirtyPenalty (repScheme exCable))))
          (fadd (cleanReps ([set_a, set_c] ! i))
             (fmul (dirtyReps ([set_a, set_c] ! i)) (dirtyPenalty (repScheme exCable))))"
    by blast
  have "i = 0"
  proof (rule ccontr)
    assume "i \<noteq> 0"
    then have "i = 1" using i by simp
    with fst [rule_format, of 0] ev show False by simp
  qed
  have s0: "sc_s (best sg) = set_a" using s \<open>i = 0\<close> by simp
  have e0: "effectiveReps (best sg) = Fin 10" using e ev \<open>i = 0\<close> by simp
  from cs s0 e0 have "\<exists>sg. computeSuggestion exCable [set_a, set_b, set_c] = Some sg \<and>
      sc_s (best sg) = set_a \<and> effectiveReps (best sg) = Fin 10" by blast
  with h1 ev show ?thesis by (intro conjI)
qed

text \<open>
  The sets are ordered by the computed numbers, which is not always the order of the real
  numbers that the formula denotes. Two examples with finite inputs follow: in decimal
  arithmetic \<open>10 + 3 * 0.9\<close> and \<open>1 + 13 * 0.9\<close> are equal, but the second evaluates to
  a greater number and its set is selected although it comes second; and \<open>0 + 10 * 0.1\<close>
  exceeds \<open>1 + 0 * 0.1\<close> for the number that \<^verbatim>\<open>0.1\<close> is, but both evaluate to
  \<open>1\<close> and the first set is selected.
\<close>

lemma computeSuggestion_pair:
  assumes a: "exerciseId a = ex_id ex" and b: "exerciseId b = ex_id ex"
    and na: "effectiveReps (score ex a) \<noteq> NaN" and nb: "effectiveReps (score ex b) \<noteq> NaN"
  shows "computeSuggestion ex [a, b] =
     Some (suggestFrom ex (score ex
       (if num_lt (effectiveReps (score ex a)) (effectiveReps (score ex b)) then b else a)))"
proof -
  have ga: "on_grid (effectiveReps (score ex a))" and gb: "on_grid (effectiveReps (score ex b))"
    by (simp_all add: score_simps fadd_not_Fin_or_grid)
  have "num_lt (Fin 0) (by_effectiveReps_desc (score ex a) (score ex b)) \<longleftrightarrow>
      num_lt (effectiveReps (score ex a)) (effectiveReps (score ex b))"
    unfolding by_effectiveReps_desc_def using ga gb na nb by (rule fsub_pos_iff)
  then show ?thesis
    using a b by (simp add: computeSuggestion_eq sort_by_def)
qed

text \<open>Penalty \<^verbatim>\<open>0.9\<close>: \<open>10 + 3 * 0.9\<close> evaluates to \<^verbatim>\<open>12.7\<close> and \<open>1 + 13 * 0.9\<close> to
  \<^verbatim>\<open>12.700000000000001\<close>.\<close>

lemma effectiveReps_10_3: 
  "fadd (Fin 10) (fmul (Fin 3) (rnd (9 / 10))) = Fin (7149464408450662 / 2 ^ 49)"
proof -
  have m: "rnd (3 * (8106479329266893 / 2 ^ 53)) = Fin (6079859496950170 / 2 ^ 51)"
    using rnd_at [of "3 * (8106479329266893 / 2 ^ 53)" 51] by (simp add: rhe_eval)
  have s: "rnd (10 + 6079859496950170 / 2 ^ 51) = Fin (7149464408450662 / 2 ^ 49)"
    using rnd_at [of "10 + 6079859496950170 / 2 ^ 51" 49] by (simp add: rhe_eval)
  show ?thesis unfolding rnd_9_10 fmul.simps m fadd.simps s ..
qed

lemma effectiveReps_1_13: 
  "fadd (Fin 1) (fmul (Fin 13) (rnd (9 / 10))) = Fin (7149464408450663 / 2 ^ 49)"
proof -
  have m: "rnd (13 * (8106479329266893 / 2 ^ 53)) = Fin (6586514455029351 / 2 ^ 49)"
    using rnd_at [of "13 * (8106479329266893 / 2 ^ 53)" 49] by (simp add: rhe_eval)
  have s: "rnd (1 + 6586514455029351 / 2 ^ 49) = Fin (7149464408450663 / 2 ^ 49)"
    using rnd_at [of "1 + 6586514455029351 / 2 ^ 49" 49] by (simp add: rhe_eval)
  show ?thesis unfolding rnd_9_10 fmul.simps m fadd.simps s ..
qed

lemma selection_at_penalty_0_9:
  "map_option (\<lambda>sg. (sc_s (best sg), effectiveReps (best sg)))
     (computeSuggestion (with_penalty (rnd (9 / 10)) exCable) [reps ''p'' 10 3, reps ''q'' 1 13]) =
   Some (reps ''q'' 1 13, Fin (7149464408450663 / 2 ^ 49)) \<and>
   effectiveReps (score (with_penalty (rnd (9 / 10)) exCable) (reps ''p'' 10 3)) =
     Fin (7149464408450662 / 2 ^ 49)"
proof -
  let ?ex = "with_penalty (rnd (9 / 10)) exCable"
  have p: "effectiveReps (score ?ex (reps ''p'' 10 3)) = Fin (7149464408450662 / 2 ^ 49)"
    using effectiveReps_10_3
    by (simp only: score_simps reps_def mkSet_def with_penalty_def exCable_def mkEx_def
        SetEntry.simps RepScheme.simps ExerciseSettings.simps)
  have q: "effectiveReps (score ?ex (reps ''q'' 1 13)) = Fin (7149464408450663 / 2 ^ 49)"
    using effectiveReps_1_13
    by (simp only: score_simps reps_def mkSet_def with_penalty_def exCable_def mkEx_def
        SetEntry.simps RepScheme.simps ExerciseSettings.simps)
  have ids: "exerciseId (reps ''p'' 10 3) = ex_id ?ex" "exerciseId (reps ''q'' 1 13) = ex_id ?ex"
    by (simp_all add: reps_def mkSet_def with_penalty_def exCable_def mkEx_def)
  have "computeSuggestion ?ex [reps ''p'' 10 3, reps ''q'' 1 13] =
      Some (suggestFrom ?ex (score ?ex (reps ''q'' 1 13)))"
    using computeSuggestion_pair [OF ids] by (simp add: p q)
  then show ?thesis using p q by (simp add: best_suggestFrom score_simps(1))
qed

text \<open>Penalty \<^verbatim>\<open>0.1\<close>, a number slightly above one tenth: \<open>1 + 0 * 0.1\<close> and
  \<open>0 + 10 * 0.1\<close> both evaluate to \<open>1\<close>, the product being rounded.\<close>

lemma rnd_1_10: "rnd (1 / 10) = Fin (3602879701896397 / 2 ^ 55)"
  using rnd_at [of "1 / 10" 56] by (simp add: rhe_eval)

lemma effectiveReps_0_10: "fadd (Fin 0) (fmul (Fin 10) (rnd (1 / 10))) = Fin 1"
proof -
  have m: "rnd (10 * (3602879701896397 / 2 ^ 55)) = Fin 1"
    using rnd_at [of "10 * (3602879701896397 / 2 ^ 55)" 52] by (simp add: rhe_eval)
  have s: "rnd (0 + 1) = Fin 1" by simp
  show ?thesis unfolding rnd_1_10 fmul.simps m fadd.simps s ..
qed

lemma effectiveReps_1_0: "fadd (Fin 1) (fmul (Fin 0) (rnd (1 / 10))) = Fin 1"
  by (simp add: rnd_1_10)

lemma selection_at_penalty_0_1:
  "map_option (\<lambda>sg. (sc_s (best sg), effectiveReps (best sg)))
     (computeSuggestion (with_penalty (rnd (1 / 10)) exCable) [reps ''a'' 1 0, reps ''b'' 0 10]) =
   Some (reps ''a'' 1 0, Fin 1) \<and>
   effectiveReps (score (with_penalty (rnd (1 / 10)) exCable) (reps ''b'' 0 10)) = Fin 1 \<and>
   rnd (1 / 10) = Fin (3602879701896397 / 2 ^ 55) \<and>
   (1 + 0 * (3602879701896397 / 2 ^ 55) :: rat) < 0 + 10 * (3602879701896397 / 2 ^ 55)"
proof -
  let ?ex = "with_penalty (rnd (1 / 10)) exCable"
  have a: "effectiveReps (score ?ex (reps ''a'' 1 0)) = Fin 1"
    using effectiveReps_1_0
    by (simp only: score_simps reps_def mkSet_def with_penalty_def exCable_def mkEx_def
        SetEntry.simps RepScheme.simps ExerciseSettings.simps)
  have b: "effectiveReps (score ?ex (reps ''b'' 0 10)) = Fin 1"
    using effectiveReps_0_10
    by (simp only: score_simps reps_def mkSet_def with_penalty_def exCable_def mkEx_def
        SetEntry.simps RepScheme.simps ExerciseSettings.simps)
  have ids: "exerciseId (reps ''a'' 1 0) = ex_id ?ex" "exerciseId (reps ''b'' 0 10) = ex_id ?ex"
    by (simp_all add: reps_def mkSet_def with_penalty_def exCable_def mkEx_def)
  have "computeSuggestion ?ex [reps ''a'' 1 0, reps ''b'' 0 10] =
      Some (suggestFrom ?ex (score ?ex (reps ''a'' 1 0)))"
    using computeSuggestion_pair [OF ids] by (simp add: a b)
  then have "map_option (\<lambda>sg. (sc_s (best sg), effectiveReps (best sg)))
     (computeSuggestion ?ex [reps ''a'' 1 0, reps ''b'' 0 10]) = Some (reps ''a'' 1 0, Fin 1)"
    using a by (simp add: best_suggestFrom score_simps(1))
  moreover have "(1 + 0 * (3602879701896397 / 2 ^ 55) :: rat) < 0 + 10 * (3602879701896397 / 2 ^ 55)"
    by simp
  ultimately show ?thesis using b rnd_1_10 by (intro conjI)
qed

section \<open>Decision policy and next weight\<close>

lemma suggestFrom_fields:
  "action (suggestFrom ex b) = fst (decide (repScheme ex) b)"
  "inc (suggestFrom ex b) =
     (if equipment ex = Db then fmul (dbIncrementPerHand ex) (Fin 2)
      else if equipment ex = Barbell then fmul (barbellIncrementPerSide ex) (Fin 2)
      else otherIncrementTotal ex)"
  "nextWeight (suggestFrom ex b) =
     (if action (suggestFrom ex b) = Increase then fadd (weightTotal b) (inc (suggestFrom ex b))
      else if action (suggestFrom ex b) = Decrease
        then math_max (Fin 0) (fsub (weightTotal b) (inc (suggestFrom ex b)))
      else weightTotal b)"
  by (simp_all add: suggestFrom_def Let_def split: prod.splits)


lemma fst_decide:
  "fst (decide scheme b) =
     (if num_le (progressMinClean scheme) (cleanReps (sc_s b)) \<and>
         num_le (dirtyRatio b) (maxDirtyRatioToProgress scheme) then Increase
      else if num_lt (cleanReps (sc_s b)) (workRangeMin scheme) then Decrease
      else Hold)"
  by (simp add: decide_def Let_def)

text \<open>
  Claim C2. For a non-empty history of the exercise the action is decided on the representative
  set: increase if \<open>cleanReps \<ge> progressMinClean\<close> and
  \<open>dirtyRatio \<le> maxDirtyRatioToProgress\<close>, where \<open>dirtyRatio\<close> is the number
  \<open>dirtyReps / totalReps\<close>, and \<open>0\<close> when \<open>totalReps\<close> is \<open>0\<close>; otherwise decrease if
  \<open>cleanReps < workRangeMin\<close>; otherwise hold. The quotient, the sum \<open>totalReps\<close> and the
  comparisons are those of binary64 numbers.
\<close>

theorem C2_decision_policy:
  assumes "filter (\<lambda>s. exerciseId s = ex_id ex) sets \<noteq> []"
  shows "\<exists>sg. computeSuggestion ex sets = Some sg \<and>
     (let r = sc_s (best sg);
          scheme = repScheme ex;
          total = fadd (cleanReps r) (dirtyReps r);
          ratio = (if num_eq total (Fin 0) then Fin 0 else fdiv (dirtyReps r) total)
      in dirtyRatio (best sg) = ratio \<and>
         action sg =
           (if num_le (progressMinClean scheme) (cleanReps r) \<and>
               num_le ratio (maxDirtyRatioToProgress scheme)
              then Increase
            else if num_lt (cleanReps r) (workRangeMin scheme) then Decrease
            else Hold))"
proof -
  from computeSuggestion_Some [OF assms] obtain r where
    cs: "computeSuggestion ex sets = Some (suggestFrom ex (score ex r))" by blast
  show ?thesis
    unfolding cs
    by (simp add: best_suggestFrom suggestFrom_fields(1) fst_decide score_simps Let_def)
qed

theorem C2_decision_policy_witness:
  "filter (\<lambda>s. exerciseId s = ex_id exCable) [set_dirty] \<noteq> [] \<and>
   (\<exists>sg. computeSuggestion exCable [set_dirty] = Some sg \<and> sc_s (best sg) = set_dirty \<and>
      dirtyRatio (best sg) = rnd (1 / 3) \<and> action sg = Hold)"
proof -
  have h: "filter (\<lambda>s. exerciseId s = ex_id exCable) [set_dirty] \<noteq> []"
    by (simp add: set_dirty_def mkSet_def exCable_def mkEx_def)
  have b: "computeSuggestion exCable [set_dirty] = Some (suggestFrom exCable (score exCable set_dirty))"
    by (rule computeSuggestion_single) (simp add: set_dirty_def mkSet_def exCable_def mkEx_def)
  from C2_decision_policy [OF h] show ?thesis
    unfolding b
    by (simp add: h best_suggestFrom score_simps Let_def set_dirty_def mkSet_def exCable_def
        mkEx_def rnd_numeral not_third_le_fifth)
qed

text \<open>Threshold \<^verbatim>\<open>0.3333333333333333\<close>, a number below one third: the quotient \<open>5 / 15\<close>
  evaluates to the same number, and the action is \<^verbatim>\<open>increase\<close>.\<close>

lemma rnd_1_3: "rnd (1 / 3) = Fin (6004799503160661 / 2 ^ 54)"
  using rnd_at [of "1 / 3" 54] by (simp add: rhe_eval)

lemma rnd_1_5: "rnd (1 / 5) = Fin (3602879701896397 / 2 ^ 54)"
  using rnd_at [of "1 / 5" 55] by (simp add: rhe_eval)

lemma decision_at_threshold_one_third:
  "map_option (\<lambda>sg. (dirtyRatio (best sg), action sg))
     (computeSuggestion (with_threshold (rnd (1 / 3)) exCable) [reps ''s'' 10 5]) =
   Some (rnd (1 / 3), Increase) \<and>
   rnd (1 / 3) = Fin (6004799503160661 / 2 ^ 54) \<and>
   (6004799503160661 / 2 ^ 54 :: rat) < 5 / (10 + 5)"
proof -
  let ?ex = "with_threshold (rnd (1 / 3)) exCable"
  have id: "exerciseId (reps ''s'' 10 5) = ex_id ?ex"
    by (simp add: reps_def mkSet_def with_threshold_def exCable_def mkEx_def)
  have r: "dirtyRatio (score ?ex (reps ''s'' 10 5)) = rnd (1 / 3)"
    by (simp add: score_simps reps_def mkSet_def rnd_numeral)
  have "action (suggestFrom ?ex (score ?ex (reps ''s'' 10 5))) = Increase"
    by (simp add: suggestFrom_fields(1) fst_decide r score_simps(1) num_le_refl)
       (simp add: reps_def mkSet_def with_threshold_def exCable_def mkEx_def num_le_refl)
  then have "map_option (\<lambda>sg. (dirtyRatio (best sg), action sg))
     (computeSuggestion ?ex [reps ''s'' 10 5]) = Some (rnd (1 / 3), Increase)"
    by (simp add: computeSuggestion_single [OF id] best_suggestFrom r)
  moreover have "(6004799503160661 / 2 ^ 54 :: rat) < 5 / (10 + 5)" by simp
  ultimately show ?thesis using rnd_1_3 by (intro conjI)
qed

text \<open>The percentage of the message: \<open>23 / 40\<close> evaluates to a number below \<open>0.575\<close>, its
  product with \<open>100\<close> to \<^verbatim>\<open>57.49999999999999\<close>, and \<^verbatim>\<open>Math.round\<close> gives \<open>57\<close>.\<close>

lemma percent_23_40: "math_round (fmul (rnd (23 / 40)) (Fin 100)) = Fin 57"
proof -
  have m: "rnd (2589569785738035 / 2 ^ 52 * 100) = Fin (8092405580431359 / 2 ^ 47)"
    using rnd_at [of "2589569785738035 / 2 ^ 52 * 100" 47] by (simp add: rhe_eval)
  have "\<lfloor>(8092405580431359 / 2 ^ 47 + 1 / 2 :: rat)\<rfloor> = 57"
    by (rule floor_unique) simp_all
  then show ?thesis unfolding rnd_23_40 fmul.simps m math_round.simps by simp
qed

lemma message_percent:
  "map_option (\<lambda>sg. (action sg, message sg))
     (computeSuggestion exCable [reps ''s'' 17 23]) = Some (Hold, MsgTooDirty (Fin 57))"
proof -
  have id: "exerciseId (reps ''s'' 17 23) = ex_id exCable"
    by (simp add: reps_def mkSet_def exCable_def mkEx_def)
  have r: "dirtyRatio (score exCable (reps ''s'' 17 23)) = rnd (23 / 40)"
    by (simp add: score_simps reps_def mkSet_def rnd_numeral)
  have c: "cleanReps (sc_s (score exCable (reps ''s'' 17 23))) = Fin 17"
    by (simp add: score_simps reps_def mkSet_def)
  have d: "decide (repScheme exCable) (score exCable (reps ''s'' 17 23)) =
      (Hold, MsgTooDirty (Fin 57))"
    unfolding decide_def Let_def r c
    by (simp add: exCable_def mkEx_def rnd_1_5 percent_23_40) (simp add: rnd_23_40)
  show ?thesis
    by (simp add: computeSuggestion_single [OF id] suggestFrom_def Let_def d)
qed

section \<open>Greedy plate decomposition\<close>

text \<open>
  Every denomination is a multiple of the smallest plate \<open>5/2\<close>. On a target
  \<open>5/2 * k\<close> with \<open>k < 2 ^ 47\<close> each loop iteration is a division with remainder on
  \<open>k\<close>: the quotient \<open>k / m\<close> is rounded, but to a number between \<open>k div m\<close> and
  \<open>k div m + 31/32\<close>, so that the added \<open>1e-9\<close> never changes the floor; the product, the
  difference and the re-rounding to half units are exact.
\<close>

lemma count_floor:
  fixes k m :: nat
  assumes m: "0 < m" "m \<le> 18" and k: "k < 2 ^ 47"
  shows "math_floor (fadd (rnd (of_nat k / of_nat m)) (rnd (1 / 10 ^ 9))) =
           Fin (of_nat (k div m))"
proof -
  define q :: int where "q = int (k div m)"
  have "k div m \<le> k" by simp
  then have "k div m < 2 ^ 47" using k by linarith
  then have q47: "q < 2 ^ 47"
    unfolding q_def by (metis of_nat_less_iff of_nat_numeral of_nat_power)
  have q0: "0 \<le> q" by (simp add: q_def)
  have kk: "(of_nat k :: rat) = of_nat (k div m) * of_nat m + of_nat (k mod m)"
    by (metis div_mult_mod_eq of_nat_add of_nat_mult)
  have m0: "(0::rat) < of_nat m" using m by simp
  have split: "(of_nat k :: rat) / of_nat m = of_int q + of_nat (k mod m) / of_nat m"
    using m0 by (subst kk) (simp add: add_divide_distrib q_def)
  have "k mod m < m" using m by simp
  then have "32 * (k mod m) \<le> 31 * m" using m by linarith
  then have "(of_nat (32 * (k mod m)) :: rat) \<le> of_nat (31 * m)" by (simp only: of_nat_le_iff)
  then have "(of_nat (k mod m) :: rat) \<le> 31 / 32 * of_nat m" by simp
  then have frac: "(of_nat (k mod m) :: rat) / of_nat m \<le> 31 / 32"
    using m0 by (simp add: divide_le_eq)
  have frac0: "(0::rat) \<le> of_nat (k mod m) / of_nat m" by simp
  have lo: "rnd (of_int q) = Fin (of_int q)"
    using q0 q47 by (intro rnd_int) simp
  have hi: "rnd (of_int (32 * q + 31) / 2 ^ 5) = Fin (of_int (32 * q + 31) / 2 ^ 5)"
    using q0 q47 by (intro rnd_exact) simp_all
  have x1: "of_int q \<le> (of_nat k :: rat) / of_nat m" unfolding split using frac0 by simp
  have x2: "(of_nat k :: rat) / of_nat m \<le> of_int (32 * q + 31) / 2 ^ 5"
    unfolding split using frac by simp
  from rnd_between [OF lo hi x1 x2] obtain a where
    a: "rnd (of_nat k / of_nat m) = Fin a" "of_int q \<le> a" "a \<le> of_int (32 * q + 31) / 2 ^ 5"
    by blast
  have c_lo: "rnd 0 = Fin 0" by simp
  have c_hi: "rnd (of_int 1 / 2 ^ 29) = Fin (of_int 1 / 2 ^ 29)"
    by (intro rnd_exact) simp_all
  have c1: "(0::rat) \<le> 1 / 10 ^ 9" by simp
  have c2: "(1::rat) / 10 ^ 9 \<le> of_int 1 / 2 ^ 29" by simp
  from rnd_between [OF c_lo c_hi c1 c2] obtain c where
    c: "rnd (1 / 10 ^ 9) = Fin c" "0 \<le> c" "c \<le> of_int 1 / 2 ^ 29" by blast
  have hi2: "rnd (of_int (64 * q + 63) / 2 ^ 6) = Fin (of_int (64 * q + 63) / 2 ^ 6)"
    using q0 q47 by (intro rnd_exact) simp_all
  have s1: "of_int q \<le> a + c" using a(2) c(2) by linarith
  have s2: "a + c \<le> of_int (64 * q + 63) / 2 ^ 6"
    using a(3) c(3) by simp
  from rnd_between [OF lo hi2 s1 s2] obtain s where
    s: "rnd (a + c) = Fin s" "of_int q \<le> s" "s \<le> of_int (64 * q + 63) / 2 ^ 6" by blast
  have "s < of_int q + 1" using s(3) by simp
  with s(2) have "\<lfloor>s\<rfloor> = q" by (intro floor_unique)
  then have "math_floor (fadd (Fin a) (Fin c)) = Fin (of_nat (k div m))"
    by (simp add: s(1) q_def)
  then show ?thesis unfolding a(1) c(1) .
qed

lemma half_round_half_units:
  assumes "k < 2 ^ 50"
  shows "half_round (Fin (5 / 2 * of_nat k)) = Fin (5 / 2 * of_nat k)"
proof -
  have "5 * k < 2 ^ 53" using assms by simp
  then have a: "rnd (of_nat (5 * k)) = Fin (of_nat (5 * k))" by (rule rnd_of_nat)
  have "fmul (Fin (5 / 2 * of_nat k)) (Fin 2) = rnd (of_nat (5 * k))" by simp
  then have "half_round (Fin (5 / 2 * of_nat k)) = fdiv (Fin (of_nat (5 * k))) (Fin 2)"
    unfolding half_round_def a by (simp only: math_round_of_nat)
  also have "\<dots> = rnd (5 / 2 * of_nat k)" by simp
  finally show ?thesis by (simp only: rnd_half_units [OF assms])
qed

lemma plate_step_half_units:
  assumes m: "0 < m" "m \<le> 18"
    and p: "plate_value p = Fin (5 / 2 * of_nat m)"
    and out: "out p = Fin 0"
    and k: "k < 2 ^ 47"
  shows "plate_step p (Fin (5 / 2 * of_nat k), out) =
           (Fin (5 / 2 * of_nat (k mod m)), out(p := Fin (of_nat (k div m))))"
proof -
  define R :: rat where "R = 5 / 2 * of_nat k"
  have q: "fdiv (Fin R) (plate_value p) = rnd (of_nat k / of_nat m)"
    using m by (simp add: p R_def)
  have count: "math_floor (fadd (fdiv (Fin R) (plate_value p)) (rnd (1 / 10 ^ 9))) =
      Fin (of_nat (k div m))"
    unfolding q by (rule count_floor [OF m k])
  have unf: "plate_step p (Fin R, out) =
     (if num_lt (Fin 0) (Fin (of_nat (k div m)))
      then (half_round (fsub (Fin R) (fmul (Fin (of_nat (k div m))) (plate_value p))),
            out(p := Fin (of_nat (k div m))))
      else (Fin R, out))"
    unfolding plate_step_def prod.case Let_def count ..
  show ?thesis
  proof (cases "k div m = 0")
    case True
    then have "k mod m = k" using m by (metis div_mult_mod_eq add_0 mult_0)
    moreover have "out(p := Fin 0) = out" using out by (metis fun_upd_triv)
    ultimately have "plate_step p (Fin R, out) =
        (Fin (5 / 2 * of_nat (k mod m)), out(p := Fin (of_nat (k div m))))"
      unfolding unf using True by (simp add: R_def)
    then show ?thesis unfolding R_def .
  next
    case False
    have dm: "k div m * m \<le> k" by simp
    from dm k have "k div m * m < 2 ^ 47" by (rule le_less_trans)
    also have "(2::nat) ^ 47 < 2 ^ 50" by simp
    finally have "k div m * m < 2 ^ 50" .
    then have prod: "fmul (Fin (of_nat (k div m))) (plate_value p) =
        Fin (5 / 2 * of_nat (k div m * m))"
      using rnd_half_units [of "k div m * m"] by (simp add: p algebra_simps)
    have "k mod m \<le> k" by simp
    then have "k mod m < 2 ^ 47" using k by (rule le_less_trans)
    also have "(2::nat) ^ 47 < 2 ^ 50" by simp
    finally have km: "k mod m < 2 ^ 50" .
    have "(of_nat k :: rat) = of_nat (k div m * m) + of_nat (k mod m)"
      by (metis div_mult_mod_eq of_nat_add)
    then have "R + - (5 / 2 * of_nat (k div m * m)) = 5 / 2 * of_nat (k mod m)"
      by (simp add: R_def algebra_simps)
    then have rem: "fsub (Fin R) (Fin (5 / 2 * of_nat (k div m * m))) =
        Fin (5 / 2 * of_nat (k mod m))"
      unfolding fsub_def fneg.simps fadd.simps by (simp only: rnd_half_units [OF km])
    have "plate_step p (Fin R, out) =
        (half_round (Fin (5 / 2 * of_nat (k mod m))), out(p := Fin (of_nat (k div m))))"
      unfolding unf prod rem using False by simp
    then show ?thesis unfolding R_def half_round_half_units [OF km] .
  qed
qed

lemma platesForWeightPerSide_half_units:
  assumes k: "k < 2 ^ 47"
  shows "platesForWeightPerSide (Fin (5 / 2 * of_nat k)) =
     emptyPlateCounts
       (P45 := Fin (of_nat (k div 18)),
        P35 := Fin (of_nat (k mod 18 div 14)),
        P25 := Fin (of_nat (k mod 18 mod 14 div 10)),
        P10 := Fin (of_nat (k mod 18 mod 14 mod 10 div 4)),
        P5 := Fin (of_nat (k mod 18 mod 14 mod 10 mod 4 div 2)),
        P2_5 := Fin (of_nat (k mod 18 mod 14 mod 10 mod 4 mod 2)))"
proof -
  have lt: "j mod m < 2 ^ 47" if "j < 2 ^ 47" for j m :: nat
  proof -
    have "j mod m \<le> j" by simp
    then show ?thesis using that by (rule le_less_trans)
  qed
  have s45: "plate_step P45 (Fin (5 / 2 * of_nat k), out) =
      (Fin (5 / 2 * of_nat (k mod 18)), out(P45 := Fin (of_nat (k div 18))))"
    if "out P45 = Fin 0" "k < 2 ^ 47" for k out
    by (rule plate_step_half_units [where m = 18 and p = P45 and out = out and k = k, OF _ _ _ that(1) that(2)]) simp_all
  have s35: "plate_step P35 (Fin (5 / 2 * of_nat k), out) =
      (Fin (5 / 2 * of_nat (k mod 14)), out(P35 := Fin (of_nat (k div 14))))"
    if "out P35 = Fin 0" "k < 2 ^ 47" for k out
    by (rule plate_step_half_units [where m = 14 and p = P35 and out = out and k = k, OF _ _ _ that(1) that(2)]) simp_all
  have s25: "plate_step P25 (Fin (5 / 2 * of_nat k), out) =
      (Fin (5 / 2 * of_nat (k mod 10)), out(P25 := Fin (of_nat (k div 10))))"
    if "out P25 = Fin 0" "k < 2 ^ 47" for k out
    by (rule plate_step_half_units [where m = 10 and p = P25 and out = out and k = k, OF _ _ _ that(1) that(2)]) simp_all
  have s10: "plate_step P10 (Fin (5 / 2 * of_nat k), out) =
      (Fin (5 / 2 * of_nat (k mod 4)), out(P10 := Fin (of_nat (k div 4))))"
    if "out P10 = Fin 0" "k < 2 ^ 47" for k out
    by (rule plate_step_half_units [where m = 4 and p = P10 and out = out and k = k, OF _ _ _ that(1) that(2)]) simp_all
  have s5: "plate_step P5 (Fin (5 / 2 * of_nat k), out) =
      (Fin (5 / 2 * of_nat (k mod 2)), out(P5 := Fin (of_nat (k div 2))))"
    if "out P5 = Fin 0" "k < 2 ^ 47" for k out
    by (rule plate_step_half_units [where m = 2 and p = P5 and out = out and k = k, OF _ _ _ that(1) that(2)]) simp_all
  have s2: "plate_step P2_5 (Fin (5 / 2 * of_nat k), out) =
      (Fin (5 / 2 * of_nat (k mod 1)), out(P2_5 := Fin (of_nat (k div 1))))"
    if "out P2_5 = Fin 0" "k < 2 ^ 47" for k out
    by (rule plate_step_half_units [where m = 1 and p = P2_5 and out = out and k = k, OF _ _ _ that(1) that(2)]) simp_all
  let ?o1 = "emptyPlateCounts(P45 := Fin (of_nat (k div 18)))"
  let ?o2 = "?o1(P35 := Fin (of_nat (k mod 18 div 14)))"
  let ?o3 = "?o2(P25 := Fin (of_nat (k mod 18 mod 14 div 10)))"
  let ?o4 = "?o3(P10 := Fin (of_nat (k mod 18 mod 14 mod 10 div 4)))"
  let ?o5 = "?o4(P5 := Fin (of_nat (k mod 18 mod 14 mod 10 mod 4 div 2)))"
  have k1: "k mod 18 < 2 ^ 47" using k by (rule lt)
  have k2: "k mod 18 mod 14 < 2 ^ 47" using k1 by (rule lt)
  have k3: "k mod 18 mod 14 mod 10 < 2 ^ 47" using k2 by (rule lt)
  have k4: "k mod 18 mod 14 mod 10 mod 4 < 2 ^ 47" using k3 by (rule lt)
  have k5: "k mod 18 mod 14 mod 10 mod 4 mod 2 < 2 ^ 47" using k4 by (rule lt)
  have 1: "plate_step P45 (Fin (5 / 2 * of_nat k), emptyPlateCounts) =
             (Fin (5 / 2 * of_nat (k mod 18)), ?o1)"
    by (rule s45 [OF _ k]) (simp add: emptyPlateCounts_def)
  have 2: "plate_step P35 (Fin (5 / 2 * of_nat (k mod 18)), ?o1) =
             (Fin (5 / 2 * of_nat (k mod 18 mod 14)), ?o2)"
    by (rule s35 [OF _ k1]) (simp add: emptyPlateCounts_def)
  have 3: "plate_step P25 (Fin (5 / 2 * of_nat (k mod 18 mod 14)), ?o2) =
             (Fin (5 / 2 * of_nat (k mod 18 mod 14 mod 10)), ?o3)"
    by (rule s25 [OF _ k2]) (simp add: emptyPlateCounts_def)
  have 4: "plate_step P10 (Fin (5 / 2 * of_nat (k mod 18 mod 14 mod 10)), ?o3) =
             (Fin (5 / 2 * of_nat (k mod 18 mod 14 mod 10 mod 4)), ?o4)"
    by (rule s10 [OF _ k3]) (simp add: emptyPlateCounts_def)
  have 5: "plate_step P5 (Fin (5 / 2 * of_nat (k mod 18 mod 14 mod 10 mod 4)), ?o4) =
             (Fin (5 / 2 * of_nat (k mod 18 mod 14 mod 10 mod 4 mod 2)), ?o5)"
    by (rule s5 [OF _ k4]) (simp add: emptyPlateCounts_def)
  have 6: "plate_step P2_5 (Fin (5 / 2 * of_nat (k mod 18 mod 14 mod 10 mod 4 mod 2)), ?o5) =
             (Fin (5 / 2 * of_nat (k mod 18 mod 14 mod 10 mod 4 mod 2 mod 1)),
              ?o5(P2_5 := Fin (of_nat (k mod 18 mod 14 mod 10 mod 4 mod 2 div 1))))"
    by (rule s2 [OF _ k5]) (simp add: emptyPlateCounts_def)
  have "(2::nat) ^ 47 < 2 ^ 50" by simp
  with k have k50: "k < 2 ^ 50" by (rule less_trans)
  show ?thesis
    unfolding platesForWeightPerSide_def PLATES_def half_round_half_units [OF k50]
    by (simp only: fold_simps 1 2 3 4 5 6 snd_conv div_by_1)
qed

text \<open>
  The weight of a side whose plate counts are natural numbers, as long as the sum stays in the
  range where half units are binary64 numbers: every product and every partial sum of
  \<^verbatim>\<open>sidePlateWeight\<close> is exact.
\<close>

lemma side_step:
  assumes "j + m * a < 2 ^ 50"
  shows "fadd (Fin (5 / 2 * of_nat j)) (fmul (Fin (5 / 2 * of_nat m)) (or_zero (Fin (of_nat a)))) =
           Fin (5 / 2 * of_nat (j + m * a))"
proof -
  have "m * a \<le> j + m * a" by simp
  then have ma: "m * a < 2 ^ 50" using assms by (rule le_less_trans)
  have e1: "5 / 2 * of_nat m * of_nat a = (5 / 2 * of_nat (m * a) :: rat)" by simp
  have e2: "5 / 2 * of_nat j + 5 / 2 * of_nat (m * a) = (5 / 2 * of_nat (j + m * a) :: rat)"
    by (simp add: algebra_simps)
  have "fmul (Fin (5 / 2 * of_nat m)) (or_zero (Fin (of_nat a))) =
      Fin (5 / 2 * of_nat (m * a))"
    by (simp only: or_zero_Fin fmul.simps e1 rnd_half_units [OF ma])
  then have "fadd (Fin (5 / 2 * of_nat j)) (fmul (Fin (5 / 2 * of_nat m)) (or_zero (Fin (of_nat a)))) =
      rnd (5 / 2 * of_nat (j + m * a))"
    by (simp only: fadd.simps e2)
  then show ?thesis by (simp only: rnd_half_units [OF assms])
qed

lemma sidePlateWeight_counts:
  assumes "18 * a + 14 * b + 10 * c + 4 * d + 2 * e + f < (2::nat) ^ 50"
  shows "sidePlateWeight
           (emptyPlateCounts(P45 := Fin (of_nat a), P35 := Fin (of_nat b), P25 := Fin (of_nat c),
              P10 := Fin (of_nat d), P5 := Fin (of_nat e), P2_5 := Fin (of_nat f))) =
         Fin (5 / 2 * of_nat (18 * a + 14 * b + 10 * c + 4 * d + 2 * e + f))"
proof -
  let ?pc = "emptyPlateCounts(P45 := Fin (of_nat a), P35 := Fin (of_nat b), P25 := Fin (of_nat c),
              P10 := Fin (of_nat d), P5 := Fin (of_nat e), P2_5 := Fin (of_nat f))"
  have b1: "0 + 18 * a < 2 ^ 50" using assms by linarith
  have b2: "0 + 18 * a + 14 * b < 2 ^ 50" using assms by linarith
  have b3: "0 + 18 * a + 14 * b + 10 * c < 2 ^ 50" using assms by linarith
  have b4: "0 + 18 * a + 14 * b + 10 * c + 4 * d < 2 ^ 50" using assms by linarith
  have b5: "0 + 18 * a + 14 * b + 10 * c + 4 * d + 2 * e < 2 ^ 50" using assms by linarith
  have b6: "0 + 18 * a + 14 * b + 10 * c + 4 * d + 2 * e + 1 * f < 2 ^ 50" using assms by linarith
  have z: "Fin 0 = Fin (5 / 2 * of_nat 0)" by simp
  have pv: "plate_value P45 = Fin (5 / 2 * of_nat 18)" "plate_value P35 = Fin (5 / 2 * of_nat 14)"
    "plate_value P25 = Fin (5 / 2 * of_nat 10)" "plate_value P10 = Fin (5 / 2 * of_nat 4)"
    "plate_value P5 = Fin (5 / 2 * of_nat 2)" "plate_value P2_5 = Fin (5 / 2 * of_nat 1)"
    by simp_all
  have cnt: "?pc P45 = Fin (of_nat a)" "?pc P35 = Fin (of_nat b)" "?pc P25 = Fin (of_nat c)"
    "?pc P10 = Fin (of_nat d)" "?pc P5 = Fin (of_nat e)" "?pc P2_5 = Fin (of_nat f)"
    by simp_all
  have "sidePlateWeight ?pc =
      fadd (fadd (fadd (fadd (fadd (fadd (Fin (5 / 2 * of_nat 0))
        (fmul (Fin (5 / 2 * of_nat 18)) (or_zero (Fin (of_nat a)))))
        (fmul (Fin (5 / 2 * of_nat 14)) (or_zero (Fin (of_nat b)))))
        (fmul (Fin (5 / 2 * of_nat 10)) (or_zero (Fin (of_nat c)))))
        (fmul (Fin (5 / 2 * of_nat 4)) (or_zero (Fin (of_nat d)))))
        (fmul (Fin (5 / 2 * of_nat 2)) (or_zero (Fin (of_nat e)))))
        (fmul (Fin (5 / 2 * of_nat 1)) (or_zero (Fin (of_nat f))))"
    unfolding sidePlateWeight_def PLATES_def foldl.simps cnt pv z [symmetric] ..
  also have "\<dots> = Fin (5 / 2 * of_nat (0 + 18 * a + 14 * b + 10 * c + 4 * d + 2 * e + 1 * f))"
    unfolding side_step [OF b1] side_step [OF b2] side_step [OF b3] side_step [OF b4]
      side_step [OF b5] side_step [OF b6] ..
  finally show ?thesis by simp
qed

lemma greedy_counts_sum:
  "18 * (k div 18) + 14 * (k mod 18 div 14) + 10 * (k mod 18 mod 14 div 10) +
   4 * (k mod 18 mod 14 mod 10 div 4) + 2 * (k mod 18 mod 14 mod 10 mod 4 div 2) +
   k mod 18 mod 14 mod 10 mod 4 mod 2 = (k::nat)"
proof -
  have "2 * (k mod 18 mod 14 mod 10 mod 4 div 2) + k mod 18 mod 14 mod 10 mod 4 mod 2 =
          k mod 18 mod 14 mod 10 mod 4" by simp
  moreover have "4 * (k mod 18 mod 14 mod 10 div 4) + k mod 18 mod 14 mod 10 mod 4 =
          k mod 18 mod 14 mod 10" by simp
  moreover have "10 * (k mod 18 mod 14 div 10) + k mod 18 mod 14 mod 10 = k mod 18 mod 14"
    by simp
  moreover have "14 * (k mod 18 div 14) + k mod 18 mod 14 = k mod 18" by simp
  moreover have "18 * (k div 18) + k mod 18 = k" by simp
  ultimately show ?thesis by linarith
qed

lemma sidePlateWeight_greedy:
  assumes k: "k < 2 ^ 47"
  shows "sidePlateWeight (platesForWeightPerSide (Fin (5 / 2 * of_nat k))) =
           Fin (5 / 2 * of_nat k)"
proof -
  have "(2::nat) ^ 47 < 2 ^ 50" by simp
  with k have k50: "k < 2 ^ 50" by (rule less_trans)
  have b: "18 * (k div 18) + 14 * (k mod 18 div 14) + 10 * (k mod 18 mod 14 div 10) +
      4 * (k mod 18 mod 14 mod 10 div 4) + 2 * (k mod 18 mod 14 mod 10 mod 4 div 2) +
      k mod 18 mod 14 mod 10 mod 4 mod 2 < 2 ^ 50"
    unfolding greedy_counts_sum by (rule k50)
  show ?thesis
    unfolding platesForWeightPerSide_half_units [OF k] sidePlateWeight_counts [OF b]
      greedy_counts_sum ..
qed

lemma denomination_sum_half_units:
  "denomination_sum n =
     5 / 2 * of_nat (18 * n P45 + 14 * n P35 + 10 * n P25 + 4 * n P10 + 2 * n P5 + n P2_5)"
  unfolding denomination_sum_def by simp

lemma half_units_bound:
  assumes "(5 / 2 * of_nat k :: rat) \<le> 2 ^ 48"
  shows "k < 2 ^ 47"
proof -
  have "(of_nat k :: rat) \<le> 2 / 5 * 2 ^ 48" using assms by simp
  also have "\<dots> < of_nat (2 ^ 47)" by simp
  finally show ?thesis by (simp only: of_nat_less_iff)
qed

lemma total_half_units:
  assumes "k < 2 ^ 47"
  shows "platesPerSideToTotal (platesForWeightPerSide (Fin (5 / 2 * of_nat k))) (Fin 0) =
           Fin (2 * (5 / 2 * of_nat k))"
proof -
  have "5 * k < 2 ^ 53" using assms by simp
  then have a: "rnd (of_nat (5 * k)) = Fin (of_nat (5 * k))" by (rule rnd_of_nat)
  have "fmul (Fin (5 / 2 * of_nat k)) (Fin 2) = rnd (of_nat (5 * k))" by simp
  then have b: "fmul (Fin (5 / 2 * of_nat k)) (Fin 2) = Fin (of_nat (5 * k))"
    by (simp only: a)
  have "fadd (Fin 0) (Fin (of_nat (5 * k))) = rnd (of_nat (5 * k))" by simp
  then have c: "fadd (Fin 0) (Fin (of_nat (5 * k))) = Fin (of_nat (5 * k))" by (simp only: a)
  have "platesPerSideToTotal (platesForWeightPerSide (Fin (5 / 2 * of_nat k))) (Fin 0) =
      Fin (of_nat (5 * k))"
    unfolding platesPerSideToTotal_def Let_def sidePlateWeight_greedy [OF assms] b c ..
  then show ?thesis by simp
qed

lemma platesForWeightPerSide_15:
  "platesForWeightPerSide (Fin 15) = emptyPlateCounts(P10 := Fin 1, P5 := Fin 1)"
  using platesForWeightPerSide_half_units [of 6] by (auto simp: fun_eq_iff emptyPlateCounts_def)




section \<open>Weight normaliser on a barbell set without plate counts\<close>

text \<open>
  Claim C4 states that a barbell set without per-side plate counts weighs the bar alone. The
  guard of \<^verbatim>\<open>setTotalWeight\<close> sends such a set to the scalar branch instead: the result
  is the set's scalar \<^verbatim>\<open>weight\<close>, or \<open>0\<close> when that is absent too; the bar weight is
  not added. Below, a barbell exercise with bar weight 45 and a set with neither plates nor weight
  gives 0.
\<close>

theorem C4_counterexample:
  "equipment (mkEx ''t_bb'' ''Test BB'' Barbell) = Barbell \<and>
   barbellPlatesPerSide bb_set_no_plates = None \<and>
   barWeight (mkEx ''t_bb'' ''Test BB'' Barbell) = Fin 45 \<and>
   setTotalWeight (mkEx ''t_bb'' ''Test BB'' Barbell) bb_set_no_plates = Fin 0"
  by (simp add: setTotalWeight_def mkEx_def bb_set_no_plates_def)

text \<open>
  Claim C4, amended. For a barbell exercise and a set without per-side plate counts,
  \<^verbatim>\<open>setTotalWeight\<close> returns the set's scalar weight, and \<open>0\<close> when the set has no
  scalar weight.
\<close>

theorem C4_amended:
  assumes "equipment ex = Barbell" and "barbellPlatesPerSide s = None"
  shows "setTotalWeight ex s = (case weight s of None \<Rightarrow> Fin 0 | Some w \<Rightarrow> w)"
  using assms by (simp add: setTotalWeight_def)

theorem C4_amended_witness:
  "equipment (mkEx ''t_bb'' ''Test BB'' Barbell) = Barbell \<and>
   barbellPlatesPerSide set_scalar = None \<and>
   setTotalWeight (mkEx ''t_bb'' ''Test BB'' Barbell) set_scalar = Fin 100"
proof -
  have h1: "equipment (mkEx ''t_bb'' ''Test BB'' Barbell) = Barbell" by (simp add: mkEx_def)
  have h2: "barbellPlatesPerSide set_scalar = None" by (simp add: set_scalar_def mkSet_def)
  show ?thesis using h1 h2 C4_amended [OF h1 h2] by (simp add: set_scalar_def mkSet_def)
qed

section \<open>Round trip of the plate model\<close>

text \<open>
  Claim C5 states that \<^verbatim>\<open>platesPerSideToTotal(platesForWeightPerSide(w), 0)\<close> equals
  \<open>round(w*2)/2\<close> for a representable \<open>w\<close>. The total counts both sides of the bar, so
  the value is twice that: at \<open>w = 15 = 10 + 5\<close> the decomposition is \<open>{10: 1, 5: 1}\<close> and
  the total is 30, while \<open>round(15*2)/2 = 15\<close>.
\<close>

theorem C5_counterexample:
  "denomination_sum plates_10_5 = 15 \<and>
   platesForWeightPerSide (Fin 15) = emptyPlateCounts(P10 := Fin 1, P5 := Fin 1) \<and>
   platesPerSideToTotal (platesForWeightPerSide (Fin 15)) (Fin 0) = Fin 30 \<and>
   half_round (Fin 15) = Fin 15"
  using total_half_units [of 6] half_round_half_units [of 6]
  by (simp add: platesForWeightPerSide_15 denomination_sum_def)

text \<open>
  Claim C5, amended. For every weight \<open>w\<close> that is a sum of plates (counts
  \<open>n :: Plate \<Rightarrow> nat\<close>) and at most \<open>2 ^ 48\<close>, half-unit rounding leaves \<open>w\<close>
  unchanged, the greedy decomposition weighs exactly \<open>w\<close> per side, and
  \<^verbatim>\<open>platesPerSideToTotal(platesForWeightPerSide(w), 0)\<close> equals \<open>2 * w\<close>, that is
  \<open>2 * (round(w*2)/2)\<close>.
\<close>

theorem C5_round_trip_both_sides:
  assumes "w = denomination_sum n" and "w \<le> 2 ^ 48"
  shows "half_round (Fin w) = Fin w \<and>
         sidePlateWeight (platesForWeightPerSide (Fin w)) = Fin w \<and>
         platesPerSideToTotal (platesForWeightPerSide (Fin w)) (Fin 0) = Fin (2 * w)"
proof -
  obtain k :: nat where w: "w = 5 / 2 * of_nat k"
    using assms(1) denomination_sum_half_units by blast
  have k: "k < 2 ^ 47" using assms(2) unfolding w by (rule half_units_bound)
  have "(2::nat) ^ 47 < 2 ^ 50" by simp
  with k have k50: "k < 2 ^ 50" by (rule less_trans)
  show ?thesis
    unfolding w
    using half_round_half_units [OF k50] sidePlateWeight_greedy [OF k] total_half_units [OF k]
    by (intro conjI)
qed

theorem C5_round_trip_witness:
  "(15::rat) = denomination_sum plates_10_5 \<and> (15::rat) \<le> 2 ^ 48 \<and>
   half_round (Fin 15) = Fin 15 \<and>
   sidePlateWeight (platesForWeightPerSide (Fin 15)) = Fin 15 \<and>
   platesPerSideToTotal (platesForWeightPerSide (Fin 15)) (Fin 0) = Fin 30"
  using C5_round_trip_both_sides [of 15 plates_10_5]
  by (simp add: denomination_sum_def)

text \<open>Beyond the bound the round trip fails. On a negative remainder no further plate is
  taken.\<close>

lemma plate_step_below_zero:
  assumes pv: "plate_value p = Fin v" and v: "0 < v" and q: "x / v \<le> - (1 / 8)"
  shows "plate_step p (Fin x, out) = (Fin x, out)"
proof -
  have c_lo: "rnd 0 = Fin 0" by simp
  have c_hi: "rnd (of_int 1 / 2 ^ 29) = Fin (of_int 1 / 2 ^ 29)"
    by (intro rnd_exact) simp_all
  have c1: "(0::rat) \<le> 1 / 10 ^ 9" by simp
  have c2: "(1::rat) / 10 ^ 9 \<le> of_int 1 / 2 ^ 29" by simp
  from rnd_between [OF c_lo c_hi c1 c2] obtain c where
    c: "rnd (1 / 10 ^ 9) = Fin c" "0 \<le> c" "c \<le> of_int 1 / 2 ^ 29" by blast
  have e: "rnd (of_int (- 1) / 2 ^ 3) = Fin (of_int (- 1) / 2 ^ 3)"
    by (intro rnd_exact) simp_all
  have "x / v \<le> of_int (- 1) / 2 ^ 3" using q by simp
  from rnd_mono [OF this] have le: "num_le (rnd (x / v)) (Fin (of_int (- 1) / 2 ^ 3))"
    by (simp only: e)
  have d: "fdiv (Fin x) (plate_value p) = rnd (x / v)" using v by (simp add: pv)
  have "\<not> num_lt (Fin 0) (math_floor (fadd (rnd (x / v)) (Fin c)))"
  proof (cases "rnd (x / v)")
    case (Fin a)
    with le have a: "a \<le> - (1 / 8)" by simp
    have "a + c \<le> 0" using a c(3) by simp
    from rnd_mono [OF this] have "num_le (rnd (a + c)) (Fin 0)" by simp
    then show ?thesis
      unfolding Fin fadd.simps by (cases "rnd (a + c)") (simp_all add: floor_le_zero)
  qed (use le in simp_all)
  then show ?thesis
    unfolding plate_step_def prod.case Let_def d c(1) by simp
qed

lemma rnd_heavy:
  "rnd 50665495807918120 = Fin 50665495807918120"
  "rnd 101330991615836240 = Fin 101330991615836240"
  "rnd 50665495807918125 = Fin 50665495807918128"
  "rnd 50665495807918128 = Fin 50665495807918128"
  "rnd 101330991615836256 = Fin 101330991615836256"
  using rnd_at_large [of 50665495807918120 3] rnd_at_large [of 101330991615836240 4]
    rnd_at_large [of 50665495807918125 3] rnd_at_large [of 50665495807918128 3]
    rnd_at_large [of 101330991615836256 4]
  by (simp_all add: rhe_eval)

lemma half_round_heavy: "half_round (Fin 50665495807918120) = Fin 50665495807918120"
proof -
  have a: "fmul (Fin 50665495807918120) (Fin 2) = Fin 101330991615836240"
    by (simp add: rnd_heavy)
  have b: "math_round (Fin 101330991615836240) = Fin 101330991615836240"
    by (rule math_round_numeral)
  have c: "fdiv (Fin 101330991615836240) (Fin 2) = Fin 50665495807918120"
    by (simp add: rnd_heavy)
  show ?thesis unfolding half_round_def a b c ..
qed

lemma count_heavy:
  "math_floor (fadd (fdiv (Fin 50665495807918120) (Fin 45)) (rnd (1 / 10 ^ 9))) =
     Fin 1125899906842625"
proof -
  have q: "rnd (50665495807918120 / 45) = Fin 1125899906842625"
    using rnd_at [of "50665495807918120 / 45" 2] by (simp add: rhe_eval)
  have c_lo: "rnd 0 = Fin 0" by simp
  have c_hi: "rnd (of_int 1 / 2 ^ 29) = Fin (of_int 1 / 2 ^ 29)"
    by (intro rnd_exact) simp_all
  have c1: "(0::rat) \<le> 1 / 10 ^ 9" by simp
  have c2: "(1::rat) / 10 ^ 9 \<le> of_int 1 / 2 ^ 29" by simp
  from rnd_between [OF c_lo c_hi c1 c2] obtain c where
    c: "rnd (1 / 10 ^ 9) = Fin c" "0 \<le> c" "c \<le> of_int 1 / 2 ^ 29" by blast
  have lo: "rnd (of_int 1125899906842625) = Fin (of_int 1125899906842625)"
    by (intro rnd_int) simp
  have hi: "rnd (of_int 4503599627370501 / 2 ^ 2) = Fin (of_int 4503599627370501 / 2 ^ 2)"
    by (intro rnd_exact) simp_all
  have s1: "of_int 1125899906842625 \<le> 1125899906842625 + c" using c(2) by simp
  have s2: "1125899906842625 + c \<le> of_int 4503599627370501 / 2 ^ 2" using c(3) by simp
  from rnd_between [OF lo hi s1 s2] obtain s where
    s: "rnd (1125899906842625 + c) = Fin s" "of_int 1125899906842625 \<le> s"
       "s \<le> of_int 4503599627370501 / 2 ^ 2" by blast
  have "s < of_int 1125899906842625 + 1" using s(3) by simp
  with s(2) have "\<lfloor>s\<rfloor> = 1125899906842625" by (intro floor_unique)
  then have "math_floor (fadd (Fin 1125899906842625) (Fin c)) = Fin 1125899906842625"
    by (simp add: s(1))
  moreover have "fdiv (Fin 50665495807918120) (Fin 45) = Fin 1125899906842625"
    using q by simp
  ultimately show ?thesis unfolding c(1) by simp
qed

lemma plate_step_heavy:
  "plate_step P45 (Fin 50665495807918120, emptyPlateCounts) =
     (Fin (- 8), emptyPlateCounts(P45 := Fin 1125899906842625))"
proof -
  have pr: "fmul (Fin 1125899906842625) (Fin 45) = Fin 50665495807918128"
    by (simp add: rnd_heavy)
  have m8: "rnd (- 8) = Fin (- 8)" and m16: "rnd (- 16) = Fin (- 16)"
    using rnd_int [of "- 8"] rnd_int [of "- 16"] by simp_all
  have df: "fsub (Fin 50665495807918120) (Fin 50665495807918128) = Fin (- 8)"
    by (simp add: fsub_def m8)
  have "\<lfloor>(- 16 + 1 / 2 :: rat)\<rfloor> = - 16" by (rule floor_unique) simp_all
  then have hr: "half_round (Fin (- 8)) = Fin (- 8)"
    by (simp add: half_round_def m16 m8)
  show ?thesis
    unfolding plate_step_def prod.case Let_def plate_value.simps count_heavy pr df hr
    by simp
qed

lemma platesForWeightPerSide_heavy:
  "platesForWeightPerSide (Fin 50665495807918120) =
     emptyPlateCounts(P45 := Fin 1125899906842625)"
proof -
  have n: "plate_step P35 (Fin (- 8), out) = (Fin (- 8), out)"
    "plate_step P25 (Fin (- 8), out) = (Fin (- 8), out)"
    "plate_step P10 (Fin (- 8), out) = (Fin (- 8), out)"
    "plate_step P5 (Fin (- 8), out) = (Fin (- 8), out)"
    "plate_step P2_5 (Fin (- 8), out) = (Fin (- 8), out)" for out
    by (rule plate_step_below_zero [where v = 35], simp_all)
       (rule plate_step_below_zero [where v = 25], simp_all,
        rule plate_step_below_zero [where v = 10], simp_all,
        rule plate_step_below_zero [where v = 5], simp_all,
        rule plate_step_below_zero [where v = "5 / 2"], simp_all)
  show ?thesis
    unfolding platesForWeightPerSide_def PLATES_def half_round_heavy
    by (simp add: plate_step_heavy n)
qed

lemma round_trip_beyond_bound:
  "denomination_sum heavy_plates = 50665495807918120 \<and>
   half_round (Fin 50665495807918120) = Fin 50665495807918120 \<and>
   platesForWeightPerSide (Fin 50665495807918120) =
     emptyPlateCounts(P45 := Fin 1125899906842625) \<and>
   sidePlateWeight (platesForWeightPerSide (Fin 50665495807918120)) = Fin 50665495807918128 \<and>
   platesPerSideToTotal (platesForWeightPerSide (Fin 50665495807918120)) (Fin 0) =
     Fin 101330991615836256 \<and>
   (2 * 50665495807918120 :: rat) = 101330991615836240"
proof -
  have side: "sidePlateWeight (emptyPlateCounts(P45 := Fin 1125899906842625)) =
      Fin 50665495807918128"
    by (simp add: sidePlateWeight_def PLATES_def emptyPlateCounts_def rnd_heavy)
  have total: "platesPerSideToTotal (emptyPlateCounts(P45 := Fin 1125899906842625)) (Fin 0) =
      Fin 101330991615836256"
    unfolding platesPerSideToTotal_def Let_def side by (simp add: rnd_heavy)
  have ds: "denomination_sum heavy_plates = 50665495807918120"
    by (simp add: denomination_sum_def)
  show ?thesis
    unfolding platesForWeightPerSide_heavy
    using ds half_round_heavy side total by simp
qed

section \<open>Sets of other exercises\<close>

text \<open>
  Claim C10. The suggestion for an exercise on a list of sets equals the suggestion on the
  sublist of the sets whose \<open>exerciseId\<close> is the exercise's id, and it is \<open>None\<close> exactly when
  that sublist is empty.
\<close>

theorem C10_only_own_sets:
  "computeSuggestion ex sets =
     computeSuggestion ex (filter (\<lambda>s. exerciseId s = ex_id ex) sets) \<and>
   (computeSuggestion ex sets = None \<longleftrightarrow> filter (\<lambda>s. exerciseId s = ex_id ex) sets = [])"
  by (simp add: computeSuggestion_eq Let_def)

section \<open>Migration of a legacy state\<close>

lemma ids_of_append: "r < length h \<Longrightarrow> ids_of (h @ xs) r = ids_of h r"
  by (simp add: ids_of_def deref_def nth_append)

lemma days_of_append: "r < length h \<Longrightarrow> days_of (h @ xs) r = days_of h r"
  by (simp add: days_of_def deref_def nth_append)

lemma ids_of_fresh: "ids_of (h @ IdsCell xs # ys) (length h) = xs"
  by (simp add: ids_of_def deref_def)

lemma days_of_fresh: "days_of (h @ DaysCell f # ys) (length h) = f"
  by (simp add: days_of_def deref_def)

lemma copy_templates_closed:
  "\<forall>w\<in>set ws. wt_exerciseIds w < length h \<Longrightarrow>
   copy_templates ws h =
     (map (\<lambda>(i, w). \<lparr> lib_id = wt_id w, lib_name = wt_name w, lib_exerciseIds = i \<rparr>)
          (zip [length h ..< length h + length ws] ws),
      h @ map (\<lambda>w. IdsCell (ids_of h (wt_exerciseIds w))) ws)"
proof (induction ws arbitrary: h)
  case Nil
  then show ?case by simp
next
  case (Cons w ws)
  let ?c = "IdsCell (ids_of h (wt_exerciseIds w))"
  have wf': "\<forall>x\<in>set ws. wt_exerciseIds x < length (h @ [?c])" using Cons.prems by auto
  have same: "map (\<lambda>x. IdsCell (ids_of (h @ [?c]) (wt_exerciseIds x))) ws =
              map (\<lambda>x. IdsCell (ids_of h (wt_exerciseIds x))) ws"
    using Cons.prems by (auto simp: ids_of_append)
  have up: "[length h ..< length h + length (w # ws)] =
            length h # [length (h @ [?c]) ..< length (h @ [?c]) + length ws]"
    by (simp add: upt_rec)
  show ?case
    unfolding up
    by (simp add: alloc_def Cons.IH [OF wf'] same del: length_append upt_Suc)
qed

lemma fold_assign_first:
  assumes r: "days week < length h"
  shows "h ! days week = DaysCell f \<Longrightarrow>
    fold (assign_first week) ws h =
      h[days week := DaysCell (\<lambda>d. case f d of Some x \<Rightarrow> Some x
                    | None \<Rightarrow> map_option wt_id (find (\<lambda>w. wt_day w = d) ws))]"
  using r
proof (induction ws arbitrary: h f)
  case Nil
  have fn: "(\<lambda>d. case f d of Some x \<Rightarrow> Some x
               | None \<Rightarrow> map_option wt_id (find (\<lambda>w. wt_day w = d) [])) = f"
    by (auto simp: fun_eq_iff split: option.splits)
  show ?case
    unfolding fn using Nil.prems(1) list_update_id [of h "days week"] by simp
next
  case (Cons w ws)
  have cur: "days_of h (days week) = f"
    using Cons.prems by (simp add: days_of_def deref_def)
  show ?case
  proof (cases "f (wt_day w)")
    case None
    let ?f' = "f(wt_day w := Some (wt_id w))"
    let ?h' = "h[days week := DaysCell ?f']"
    have step: "assign_first week w h = ?h'"
      unfolding assign_first_def set_day_def cur using None Cons.prems by simp
    have "fold (assign_first week) ws ?h' =
        ?h'[days week := DaysCell (\<lambda>d. case ?f' d of Some x \<Rightarrow> Some x
                    | None \<Rightarrow> map_option wt_id (find (\<lambda>w. wt_day w = d) ws))]"
    proof (rule Cons.IH [where h = ?h' and f = ?f'])
      show "?h' ! days week = DaysCell ?f'" using Cons.prems(2) by simp
      show "days week < length ?h'" using Cons.prems(2) by simp
    qed
    moreover have "(\<lambda>d. case ?f' d of Some x \<Rightarrow> Some x
                    | None \<Rightarrow> map_option wt_id (find (\<lambda>w. wt_day w = d) ws)) =
          (\<lambda>d. case f d of Some x \<Rightarrow> Some x
                    | None \<Rightarrow> map_option wt_id (find (\<lambda>x. wt_day x = d) (w # ws)))"
      using None by (auto simp: fun_eq_iff split: option.splits)
    ultimately show ?thesis by (simp add: step)
  next
    case (Some a)
    have step: "assign_first week w h = h"
      using Some cur by (simp add: assign_first_def)
    have "(\<lambda>d. case f d of Some x \<Rightarrow> Some x
                    | None \<Rightarrow> map_option wt_id (find (\<lambda>w. wt_day w = d) ws)) =
          (\<lambda>d. case f d of Some x \<Rightarrow> Some x
                    | None \<Rightarrow> map_option wt_id (find (\<lambda>x. wt_day x = d) (w # ws)))"
      using Some by (auto simp: fun_eq_iff split: option.splits)
    then show ?thesis
      using Cons.IH [OF Cons.prems(1) Cons.prems(2)] by (simp add: step)
  qed
qed

text \<open>
  The store and the state after a migration that runs, in closed form.
\<close>

lemma ensureV2State_legacy:
  assumes legacy: "workoutLibrary raw = None \<or> split raw = None \<or> settings raw = None"
    and wf: "\<forall>w\<in>set (workouts raw). wt_exerciseIds w < length h"
  defines "n \<equiv> length (workouts raw)"
  defines "g \<equiv> (\<lambda>d. map_option wt_id (find (\<lambda>w. wt_day w = d) (workouts raw)))"
  shows "ensureV2State raw h =
    (raw \<lparr> workoutLibrary := Some (map (\<lambda>(i, w). \<lparr> lib_id = wt_id w, lib_name = wt_name w,
                                                    lib_exerciseIds = i \<rparr>)
                                        (zip [length h ..< length h + n] (workouts raw))),
           split := Some \<lparr> week1 = \<lparr> days = length h + n \<rparr>,
                            week2 = \<lparr> days = length h + n + 1 \<rparr> \<rparr>,
           settings := Some \<lparr> activeWeek = Week1, keepScreenAwake = None \<rparr> \<rparr>,
     (h @ map (\<lambda>w. IdsCell (ids_of h (wt_exerciseIds w))) (workouts raw))
       @ [DaysCell g, DaysCell g])"
proof -
  let ?h1 = "h @ map (\<lambda>w. IdsCell (ids_of h (wt_exerciseIds w))) (workouts raw)"
  let ?w1 = "\<lparr> days = length h + n \<rparr>"
  have len1: "length ?h1 = length h + n" by (simp add: n_def)
  let ?h2 = "?h1 @ [DaysCell (\<lambda>_. None)]"
  have nc: "\<not> (workoutLibrary raw \<noteq> None \<and> split raw \<noteq> None \<and> settings raw \<noteq> None)"
    using legacy by auto
  note cp = copy_templates_closed [OF wf, folded n_def]
  have e: "emptySplitWeek ?h1 = (?w1, ?h2)"
    by (simp add: emptySplitWeek_def alloc_def n_def)
  have r: "days ?w1 < length ?h2" by (simp add: n_def)
  have at: "?h2 ! days ?w1 = DaysCell (\<lambda>_. None)"
    using len1 by (simp add: nth_append)
  have f: "fold (assign_first ?w1) (workouts raw) ?h2 = ?h1 @ [DaysCell g]"
    unfolding fold_assign_first [OF r at]
    using len1 by (simp add: g_def list_update_append)
  have c: "cloneSplitWeek ?w1 (?h1 @ [DaysCell g]) =
             (\<lparr> days = length h + n + 1 \<rparr>, ?h1 @ [DaysCell g, DaysCell g])"
    using days_of_fresh [of ?h1 g "[]"] len1
    by (simp add: cloneSplitWeek_def alloc_def)
  show ?thesis
    unfolding ensureV2State_def if_not_P [OF nc] cp prod.case e Let_def f c ..
qed

text \<open>
  Claim C8. Let the migration of \<open>raw\<close> in store \<open>h\<close> give \<open>st\<close> and \<open>h'\<close>, every
  template's array being a cell of \<open>h\<close>. If \<open>raw\<close> holds all three v2 fields, \<open>st\<close> is
  \<open>raw\<close> and the store is unchanged. Otherwise the library has one item per legacy template, in
  order, with the template's id and name and a newly allocated array holding the same exercise ids;
  each weekday of week 1 holds the id of the first template in original order whose day matches
  (none if there is none); week 2 has the same contents as week 1 in a different cell, so that
  writing a day of one week leaves the other unchanged; the active week is week 1; the other
  fields of \<open>raw\<close> are kept and no cell of \<open>h\<close> is modified.
\<close>

theorem C8_migration:
  assumes run: "ensureV2State raw h = (st, h')"
    and wf: "\<forall>w\<in>set (workouts raw). wt_exerciseIds w < length h"
  shows "(workoutLibrary raw \<noteq> None \<and> split raw \<noteq> None \<and> settings raw \<noteq> None \<longrightarrow>
            st = raw \<and> h' = h) \<and>
         (workoutLibrary raw = None \<or> split raw = None \<or> settings raw = None \<longrightarrow>
            (\<exists>lib w1 w2.
               st = raw \<lparr> workoutLibrary := Some lib,
                          split := Some \<lparr> week1 = w1, week2 = w2 \<rparr>,
                          settings := Some \<lparr> activeWeek = Week1, keepScreenAwake = None \<rparr> \<rparr> \<and>
               length lib = length (workouts raw) \<and>
               (\<forall>i<length lib.
                  lib_id (lib ! i) = wt_id (workouts raw ! i) \<and>
                  lib_name (lib ! i) = wt_name (workouts raw ! i) \<and>
                  ids_of h' (lib_exerciseIds (lib ! i)) = ids_of h (wt_exerciseIds (workouts raw ! i)) \<and>
                  length h \<le> lib_exerciseIds (lib ! i) \<and> lib_exerciseIds (lib ! i) < length h') \<and>
               (\<forall>d. days_of h' (days w1) d =
                      map_option wt_id (find (\<lambda>w. wt_day w = d) (workouts raw))) \<and>
               days_of h' (days w2) = days_of h' (days w1) \<and>
               days w1 \<noteq> days w2 \<and>
               length h \<le> days w1 \<and> days w1 < length h' \<and>
               length h \<le> days w2 \<and> days w2 < length h' \<and>
               (\<forall>d v. days_of (set_day (days w2) d v h') (days w1) = days_of h' (days w1)) \<and>
               (\<forall>d v. days_of (set_day (days w1) d v h') (days w2) = days_of h' (days w2)) \<and>
               take (length h) h' = h))"
proof (intro conjI impI)
  assume "workoutLibrary raw \<noteq> None \<and> split raw \<noteq> None \<and> settings raw \<noteq> None"
  then have "ensureV2State raw h = (raw, h)" by (simp add: ensureV2State_def)
  with run show "st = raw" and "h' = h" by simp_all
next
  assume legacy: "workoutLibrary raw = None \<or> split raw = None \<or> settings raw = None"
  define ws where "ws = workouts raw"
  define n where "n = length ws"
  define g where "g = (\<lambda>d. map_option wt_id (find (\<lambda>w. wt_day w = d) ws))"
  define cells where "cells = map (\<lambda>w. IdsCell (ids_of h (wt_exerciseIds w))) ws"
  define lib where "lib = map (\<lambda>(i, w). \<lparr> lib_id = wt_id w, lib_name = wt_name w,
                     lib_exerciseIds = i \<rparr>) (zip [length h ..< length h + n] ws)"
  define w1 where "w1 = \<lparr> days = length h + n \<rparr>"
  define w2 where "w2 = \<lparr> days = length h + n + 1 \<rparr>"
  have lc: "length cells = n" by (simp add: cells_def n_def)
  from ensureV2State_legacy [OF legacy wf] run
  have st: "st = raw \<lparr> workoutLibrary := Some lib,
                          split := Some \<lparr> week1 = w1, week2 = w2 \<rparr>,
                          settings := Some \<lparr> activeWeek = Week1, keepScreenAwake = None \<rparr> \<rparr>"
    and h': "h' = (h @ cells) @ [DaysCell g, DaysCell g]"
    by (simp_all add: lib_def w1_def w2_def ws_def n_def g_def cells_def)
  have len: "length lib = length (workouts raw)" by (simp add: lib_def n_def ws_def)
  have items: "\<forall>i<length lib.
                  lib_id (lib ! i) = wt_id (workouts raw ! i) \<and>
                  lib_name (lib ! i) = wt_name (workouts raw ! i) \<and>
                  ids_of h' (lib_exerciseIds (lib ! i)) = ids_of h (wt_exerciseIds (workouts raw ! i)) \<and>
                  length h \<le> lib_exerciseIds (lib ! i) \<and> lib_exerciseIds (lib ! i) < length h'"
  proof (intro allI impI)
    fix i assume "i < length lib"
    then have i: "i < n" by (simp add: lib_def n_def)
    then have li: "lib ! i = \<lparr> lib_id = wt_id (ws ! i), lib_name = wt_name (ws ! i),
                              lib_exerciseIds = length h + i \<rparr>"
      by (simp add: lib_def n_def)
    have "h' ! (length h + i) = IdsCell (ids_of h (wt_exerciseIds (ws ! i)))"
      using i lc by (simp add: h' nth_append cells_def n_def)
    moreover have "length h + i < length h'" using i lc by (simp add: h')
    ultimately have "ids_of h' (length h + i) = ids_of h (wt_exerciseIds (ws ! i))"
      by (simp add: ids_of_def deref_def)
    then show "lib_id (lib ! i) = wt_id (workouts raw ! i) \<and>
                  lib_name (lib ! i) = wt_name (workouts raw ! i) \<and>
                  ids_of h' (lib_exerciseIds (lib ! i)) = ids_of h (wt_exerciseIds (workouts raw ! i)) \<and>
                  length h \<le> lib_exerciseIds (lib ! i) \<and> lib_exerciseIds (lib ! i) < length h'"
      using i lc by (simp add: li ws_def h')
  qed
  have c1: "h' ! days w1 = DaysCell g" and c2: "h' ! days w2 = DaysCell g"
    using lc by (simp_all add: h' w1_def w2_def nth_append)
  have b1: "days w1 < length h'" and b2: "days w2 < length h'"
    using lc by (simp_all add: h' w1_def w2_def)
  have d1: "days_of h' (days w1) = g" and d2: "days_of h' (days w2) = g"
    using c1 c2 b1 b2 by (simp_all add: days_of_def deref_def)
  have ne: "days w1 \<noteq> days w2" by (simp add: w1_def w2_def)
  have e2: "days_of (set_day (days w2) d v h') (days w1) = days_of h' (days w1)" for d v
    using ne b1 b2 by (simp add: set_day_def days_of_def deref_def)
  have e1: "days_of (set_day (days w1) d v h') (days w2) = days_of h' (days w2)" for d v
    using ne b1 b2 by (simp add: set_day_def days_of_def deref_def)
  have pre: "take (length h) h' = h" by (simp add: h')
  have lo: "length h \<le> days w1" "length h \<le> days w2" by (simp_all add: w1_def w2_def)
  have w1d: "\<forall>d. days_of h' (days w1) d =
                      map_option wt_id (find (\<lambda>w. wt_day w = d) (workouts raw))"
    by (simp add: d1 g_def ws_def)
  have d21: "days_of h' (days w2) = days_of h' (days w1)" by (simp add: d1 d2)
  show "\<exists>lib w1 w2.
               st = raw \<lparr> workoutLibrary := Some lib,
                          split := Some \<lparr> week1 = w1, week2 = w2 \<rparr>,
                          settings := Some \<lparr> activeWeek = Week1, keepScreenAwake = None \<rparr> \<rparr> \<and>
               length lib = length (workouts raw) \<and>
               (\<forall>i<length lib.
                  lib_id (lib ! i) = wt_id (workouts raw ! i) \<and>
                  lib_name (lib ! i) = wt_name (workouts raw ! i) \<and>
                  ids_of h' (lib_exerciseIds (lib ! i)) = ids_of h (wt_exerciseIds (workouts raw ! i)) \<and>
                  length h \<le> lib_exerciseIds (lib ! i) \<and> lib_exerciseIds (lib ! i) < length h') \<and>
               (\<forall>d. days_of h' (days w1) d =
                      map_option wt_id (find (\<lambda>w. wt_day w = d) (workouts raw))) \<and>
               days_of h' (days w2) = days_of h' (days w1) \<and>
               days w1 \<noteq> days w2 \<and>
               length h \<le> days w1 \<and> days w1 < length h' \<and>
               length h \<le> days w2 \<and> days w2 < length h' \<and>
               (\<forall>d v. days_of (set_day (days w2) d v h') (days w1) = days_of h' (days w1)) \<and>
               (\<forall>d v. days_of (set_day (days w1) d v h') (days w2) = days_of h' (days w2)) \<and>
               take (length h) h' = h"
    using st len items ne b1 b2 pre lo w1d d21
    by (intro exI [of _ lib] exI [of _ w1] exI [of _ w2]) (simp add: e1 e2)
qed

theorem C8_migration_witness:
  "map wt_exerciseIds (workouts legacy_state) = [0, 1, 2] \<and> length legacy_store = 3 \<and>
   workoutLibrary legacy_state = None \<and>
   (\<exists>lib w1 w2 h'.
      ensureV2State legacy_state legacy_store =
        (legacy_state \<lparr> workoutLibrary := Some lib,
                         split := Some \<lparr> week1 = w1, week2 = w2 \<rparr>,
                         settings := Some \<lparr> activeWeek = Week1, keepScreenAwake = None \<rparr> \<rparr>, h') \<and>
      length lib = 3 \<and> lib_id (lib ! 2) = ''w_wed_b'' \<and>
      ids_of h' (lib_exerciseIds (lib ! 2)) = [''t_c''] \<and>
      days_of h' (days w1) Monday = Some ''w_mon'' \<and>
      days_of h' (days w1) Wednesday = Some ''w_wed_a'' \<and>
      days_of h' (days w1) Tuesday = None \<and>
      days_of h' (days w2) = days_of h' (days w1) \<and>
      days w1 \<noteq> days w2 \<and>
      days_of (set_day (days w2) Monday None h') (days w1) Monday = Some ''w_mon'') \<and>
   workoutLibrary v2_state \<noteq> None \<and> split v2_state \<noteq> None \<and> settings v2_state \<noteq> None \<and>
   map wt_exerciseIds (workouts v2_state) = [0, 0] \<and> length v2_store = 3 \<and>
   ensureV2State v2_state v2_store = (v2_state, v2_store)"
proof -
  have refs: "map wt_exerciseIds (workouts legacy_state) = [0, 1, 2]" "length legacy_store = 3"
    "map wt_exerciseIds (workouts v2_state) = [0, 0]" "length v2_store = 3"
    by (simp_all add: legacy_state_def legacy_store_def v2_state_def v2_store_def)
  have wf1: "\<forall>w\<in>set (workouts legacy_state). wt_exerciseIds w < length legacy_store"
    by (simp add: legacy_state_def legacy_store_def)
  have leg: "workoutLibrary legacy_state = None" by (simp add: legacy_state_def)
  obtain st h' where run1: "ensureV2State legacy_state legacy_store = (st, h')"
    by (cases "ensureV2State legacy_state legacy_store")
  from C8_migration [OF run1 wf1] leg obtain lib w1 w2 where
    st: "st = legacy_state \<lparr> workoutLibrary := Some lib,
                         split := Some \<lparr> week1 = w1, week2 = w2 \<rparr>,
                         settings := Some \<lparr> activeWeek = Week1, keepScreenAwake = None \<rparr> \<rparr>"
    and len: "length lib = length (workouts legacy_state)"
    and items: "\<forall>i<length lib.
                  lib_id (lib ! i) = wt_id (workouts legacy_state ! i) \<and>
                  lib_name (lib ! i) = wt_name (workouts legacy_state ! i) \<and>
                  ids_of h' (lib_exerciseIds (lib ! i)) =
                    ids_of legacy_store (wt_exerciseIds (workouts legacy_state ! i)) \<and>
                  length legacy_store \<le> lib_exerciseIds (lib ! i) \<and>
                  lib_exerciseIds (lib ! i) < length h'"
    and d1: "\<forall>d. days_of h' (days w1) d =
                      map_option wt_id (find (\<lambda>w. wt_day w = d) (workouts legacy_state))"
    and d2: "days_of h' (days w2) = days_of h' (days w1)"
    and ne: "days w1 \<noteq> days w2"
    and e2: "\<forall>d v. days_of (set_day (days w2) d v h') (days w1) = days_of h' (days w1)"
    by blast
  have len3: "length lib = 3" using len by (simp add: legacy_state_def)
  have src: "ids_of legacy_store 2 = [''t_c'']"
    by (simp add: legacy_store_def ids_of_def deref_def)
  have i2: "lib_id (lib ! 2) = ''w_wed_b'' \<and> ids_of h' (lib_exerciseIds (lib ! 2)) = [''t_c'']"
    using items [rule_format, of 2] len3 src
    by (simp add: legacy_state_def)
  have days: "days_of h' (days w1) Monday = Some ''w_mon''"
    "days_of h' (days w1) Wednesday = Some ''w_wed_a''"
    "days_of h' (days w1) Tuesday = None"
    by (simp_all add: d1 legacy_state_def)
  have wf2: "\<forall>w\<in>set (workouts v2_state). wt_exerciseIds w < length v2_store"
    by (simp add: v2_state_def v2_store_def)
  have v2: "workoutLibrary v2_state \<noteq> None \<and> split v2_state \<noteq> None \<and> settings v2_state \<noteq> None"
    by (simp add: v2_state_def)
  obtain st2 h2 where run2: "ensureV2State v2_state v2_store = (st2, h2)"
    by (cases "ensureV2State v2_state v2_store")
  from C8_migration [OF run2 wf2] v2 have same: "st2 = v2_state \<and> h2 = v2_store" by blast
  have first: "\<exists>lib w1 w2 h'.
      ensureV2State legacy_state legacy_store =
        (legacy_state \<lparr> workoutLibrary := Some lib,
                         split := Some \<lparr> week1 = w1, week2 = w2 \<rparr>,
                         settings := Some \<lparr> activeWeek = Week1, keepScreenAwake = None \<rparr> \<rparr>, h') \<and>
      length lib = 3 \<and> lib_id (lib ! 2) = ''w_wed_b'' \<and>
      ids_of h' (lib_exerciseIds (lib ! 2)) = [''t_c''] \<and>
      days_of h' (days w1) Monday = Some ''w_mon'' \<and>
      days_of h' (days w1) Wednesday = Some ''w_wed_a'' \<and>
      days_of h' (days w1) Tuesday = None \<and>
      days_of h' (days w2) = days_of h' (days w1) \<and>
      days w1 \<noteq> days w2 \<and>
      days_of (set_day (days w2) Monday None h') (days w1) Monday = Some ''w_mon''"
    using run1 st len3 i2 days d2 ne e2
    by (intro exI [of _ lib] exI [of _ w1] exI [of _ w2] exI [of _ h']) simp
  show ?thesis using refs leg first v2 run2 same by blast
qed

section \<open>Resolving the workout of a day\<close>




text \<open>
  Claim C6 states that the legacy template list is consulted only when no v2 structure exists.
  \<^verbatim>\<open>resolveWorkoutForDay\<close> consults it whenever the slot is empty: in the state below, which
  holds library, split and settings, Monday is a rest day of the active week, and the Monday
  template of the legacy list is returned.
\<close>

theorem C6_rest_slot_resolves_legacy_template:
  "workoutLibrary v2_state \<noteq> None \<and> split v2_state \<noteq> None \<and> settings v2_state \<noteq> None \<and>
   split v2_state = Some \<lparr> week1 = \<lparr> days = 1 \<rparr>, week2 = \<lparr> days = 2 \<rparr> \<rparr> \<and>
   days_of v2_store 1 Monday = None \<and>
   resolveWorkoutForDay v2_store v2_state Monday =
     \<lparr> workout = Some \<lparr> rw_id = ''w_mon'', rw_name = ''Mon'', rw_exerciseIds = 0 \<rparr>,
       workoutId = Some ''w_mon'', res_activeWeek = Week1 \<rparr>"
  by (simp add: resolveWorkoutForDay_def v2_state_def v2_store_def days_of_def deref_def)

section \<open>Import validation\<close>

text \<open>
  A document that \<^verbatim>\<open>validateImport\<close> accepts passes every listed check.
\<close>

lemma check_day_Inr:
  assumes "check_day ids i seen d = Inr sd"
  shows "as_day (get_member ''name'' d) = Some (sd_name sd)"
    and "sd_name sd \<notin> set seen"
    and "case get_member ''workoutId'' d of Some (JStr s) \<Rightarrow> s \<in> set ids | _ \<Rightarrow> True"
  using assms
  by (auto simp: check_day_def Let_def split: if_splits option.splits json.splits)

lemma validateDays_Inr:
  "validateDays ids i ds seen acc = Inr out \<Longrightarrow>
     list_all (\<lambda>d. as_day (get_member ''name'' d) \<noteq> None) ds \<and>
     distinct (map (\<lambda>d. as_day (get_member ''name'' d)) ds) \<and>
     (\<forall>d\<in>set ds. \<forall>x. as_day (get_member ''name'' d) = Some x \<longrightarrow> x \<notin> set seen) \<and>
     workout_refs_ok ids ds"
proof (induction ds arbitrary: seen acc)
  case Nil
  then show ?case by (simp add: workout_refs_ok_def)
next
  case (Cons d ds)
  from Cons.prems obtain sd where sd: "check_day ids i seen d = Inr sd"
    and rest: "validateDays ids i ds (seen @ [sd_name sd]) (acc @ [sd]) = Inr out"
    by (auto split: sum.splits)
  note day = check_day_Inr [OF sd]
  from Cons.IH [OF rest] have
    a: "list_all (\<lambda>d. as_day (get_member ''name'' d) \<noteq> None) ds"
    and b: "distinct (map (\<lambda>d. as_day (get_member ''name'' d)) ds)"
    and c: "\<forall>d\<in>set ds. \<forall>x. as_day (get_member ''name'' d) = Some x \<longrightarrow>
              x \<notin> set (seen @ [sd_name sd])"
    and e: "workout_refs_ok ids ds" by blast+
  have fresh: "as_day (get_member ''name'' d) \<notin> (\<lambda>d. as_day (get_member ''name'' d)) ` set ds"
  proof
    assume "as_day (get_member ''name'' d) \<in> (\<lambda>d. as_day (get_member ''name'' d)) ` set ds"
    then obtain d' where d': "d' \<in> set ds"
      and "as_day (get_member ''name'' d') = as_day (get_member ''name'' d)" by auto
    then have "as_day (get_member ''name'' d') = Some (sd_name sd)" using day(1) by simp
    with c d' have "sd_name sd \<notin> set (seen @ [sd_name sd])" by blast
    then show False by simp
  qed
  show ?case
    using a b c e day fresh by (auto simp: workout_refs_ok_def)
qed

lemma distinct_map_outer:
  "distinct (map (\<lambda>x. g (f x)) xs) \<Longrightarrow> distinct (map f xs)"
  by (induction xs) auto

lemma validateDays_ok:
  assumes "validateDays ids i ds [] [] = Inr out"
  shows "day_names_ok ds \<and> workout_refs_ok ids ds"
proof -
  from validateDays_Inr [OF assms] have
    a: "list_all (\<lambda>d. as_day (get_member ''name'' d) \<noteq> None) ds"
    and b: "distinct (map (\<lambda>d. as_day (get_member ''name'' d)) ds)"
    and e: "workout_refs_ok ids ds" by blast+
  from b have "distinct (map (get_member ''name'') ds)" by (rule distinct_map_outer)
  with a e show ?thesis by (simp add: day_names_ok_def)
qed

lemma three_keys:
  assumes "length ks = 3" "''id'' \<in> set ks" "''name'' \<in> set ks" "''days'' \<in> set ks"
  shows "set ks = {''id'', ''name'', ''days''}"
proof -
  from assms(1) obtain a b c where ks: "ks = [a, b, c]"
    by (auto simp: numeral_3_eq_3 length_Suc_conv)
  show ?thesis using assms(2-4) unfolding ks by auto
qed

lemma check_week_Inr:
  assumes "check_week ids i seen w = Inr wk"
  shows "week_keys_ok w"
    and "get_member ''id'' w = Some (JStr (week_id wk))"
    and "week_id wk \<notin> set seen"
    and "week_days_ok ids w"
proof -
  have obj: "isPlainObject w" and len: "length (object_keys w) = 3"
    and k1: "''id'' \<in> set (object_keys w)" and k2: "''name'' \<in> set (object_keys w)"
    and k3: "''days'' \<in> set (object_keys w)"
    using assms by (auto simp: check_week_def Let_def split: if_splits)
  show "week_keys_ok w"
    using obj len three_keys [OF len k1 k2 k3] by (simp add: week_keys_ok_def)
  have body: "(case get_member ''id'' w of
             Some (JStr wid) \<Rightarrow>
               if trim wid = [] then Inl (week_label i @ '' has an invalid id.'')
               else if wid \<in> set seen
               then Inl (''Duplicate week id '' @ quote wid @ '' found.'')
               else
                 (case get_member ''name'' w of
                    Some (JStr name) \<Rightarrow>
                      if trim name = [] then Inl (week_label i @ '' has an invalid name.'')
                      else
                        (case get_member ''days'' w of
                           Some (JArr ds) \<Rightarrow>
                             if length ds \<noteq> 7
                             then Inl (week_label i @ '' must have exactly 7 days.'')
                             else
                               (case validateDays ids i ds [] [] of
                                  Inl e \<Rightarrow> Inl e
                                | Inr normalizedDays \<Rightarrow>
                                    Inr \<lparr> week_id = wid, week_name = trim name,
                                          week_days = orderedDays normalizedDays \<rparr>)
                         | _ \<Rightarrow> Inl (week_label i @ '' must have exactly 7 days.''))
                  | _ \<Rightarrow> Inl (week_label i @ '' has an invalid name.''))
           | _ \<Rightarrow> Inl (week_label i @ '' has an invalid id.'')) = Inr wk"
    using assms obj len k1 k2 k3 by (simp add: check_week_def Let_def)
  from body obtain wid where wid: "get_member ''id'' w = Some (JStr wid)"
    by (auto split: option.splits json.splits)
  from body wid have nseen: "wid \<notin> set seen"
    by (auto split: if_splits)
  from body wid nseen obtain name where name: "get_member ''name'' w = Some (JStr name)"
    by (auto split: if_splits option.splits json.splits)
  from body wid nseen name obtain ds where ds: "get_member ''days'' w = Some (JArr ds)"
    by (auto split: if_splits option.splits json.splits)
  from body wid nseen name ds have l7: "length ds = 7"
    by (auto split: if_splits)
  from body wid nseen name ds l7 obtain nd where nd: "validateDays ids i ds [] [] = Inr nd"
    and wk: "wk = \<lparr> week_id = wid, week_name = trim name, week_days = orderedDays nd \<rparr>"
    by (auto split: if_splits sum.splits)
  show "get_member ''id'' w = Some (JStr (week_id wk))" using wid wk by simp
  show "week_id wk \<notin> set seen" using nseen wk by simp
  show "week_days_ok ids w"
    using validateDays_ok [OF nd] ds l7 by (simp add: week_days_ok_def day_list_def)
qed

lemma validateWeeks_Inr:
  "validateWeeks ids i ws seen acc = Inr out \<Longrightarrow>
     list_all week_keys_ok ws \<and> list_all (week_days_ok ids) ws \<and>
     distinct (map (get_member ''id'') ws) \<and>
     (\<forall>w\<in>set ws. \<forall>x. get_member ''id'' w = Some (JStr x) \<longrightarrow> x \<notin> set seen)"
proof (induction ws arbitrary: i seen acc)
  case Nil
  then show ?case by simp
next
  case (Cons w ws)
  from Cons.prems obtain wk where wk: "check_week ids i seen w = Inr wk"
    and rest: "validateWeeks ids (i + 1) ws (seen @ [week_id wk]) (acc @ [wk]) = Inr out"
    by (auto split: sum.splits)
  note week = check_week_Inr [OF wk]
  from Cons.IH [OF rest] have
    a: "list_all week_keys_ok ws" and b: "list_all (week_days_ok ids) ws"
    and c: "distinct (map (get_member ''id'') ws)"
    and d: "\<forall>w\<in>set ws. \<forall>x. get_member ''id'' w = Some (JStr x) \<longrightarrow>
              x \<notin> set (seen @ [week_id wk])" by blast+
  have fresh: "get_member ''id'' w \<notin> get_member ''id'' ` set ws"
  proof
    assume "get_member ''id'' w \<in> get_member ''id'' ` set ws"
    then obtain w' where w': "w' \<in> set ws"
      and "get_member ''id'' w' = get_member ''id'' w" by auto
    then have "get_member ''id'' w' = Some (JStr (week_id wk))" using week(2) by simp
    with d w' have "week_id wk \<notin> set (seen @ [week_id wk])" by blast
    then show False by simp
  qed
  show ?case using a b c d week fresh by auto
qed

lemma check_document_Inr:
  assumes "check_document library doc = Inr weeks"
  shows "passes_listed_checks library doc"
proof -
  have obj: "isPlainObject doc" using assms by (auto simp: check_document_def split: if_splits)
  have keys: "object_keys doc = [''weeks'']"
    using assms obj by (auto simp: check_document_def Let_def split: if_splits list.splits)
  from assms obj keys obtain ws where ws: "get_member ''weeks'' doc = Some (JArr ws)"
    by (auto simp: check_document_def Let_def split: option.splits json.splits)
  from assms obj keys ws have ne: "ws \<noteq> []"
    and run: "validateWeeks (map lib_id library) 0 ws [] [] = Inr weeks"
    by (auto simp: check_document_def Let_def split: if_splits)
  from validateWeeks_Inr [OF run] show ?thesis
    using obj keys ws ne by (simp add: passes_listed_checks_def)
qed

text \<open>
  Every error message is a non-empty string.
\<close>

lemma week_label_nonempty [simp]: "week_label i @ s \<noteq> []"
  by (simp add: week_label_def)

lemma quote_nonempty [simp]: "quote s @ t \<noteq> []"
  by (simp add: quote_def)

lemma check_day_Inl: "check_day ids i seen d = Inl e \<Longrightarrow> e \<noteq> []"
  by (auto simp: check_day_def Let_def
      split: if_splits option.splits json.splits)

lemma validateDays_Inl: "validateDays ids i ds seen acc = Inl e \<Longrightarrow> e \<noteq> []"
proof (induction ds arbitrary: seen acc)
  case Nil
  then show ?case by simp
next
  case (Cons d ds)
  show ?case
  proof (cases "check_day ids i seen d")
    case (Inl e')
    with Cons.prems have "e = e'" by simp
    with Inl show ?thesis by (simp add: check_day_Inl)
  next
    case (Inr sd)
    with Cons.prems have "validateDays ids i ds (seen @ [sd_name sd]) (acc @ [sd]) = Inl e"
      by simp
    then show ?thesis by (rule Cons.IH)
  qed
qed

lemma check_week_Inl: "check_week ids i seen w = Inl e \<Longrightarrow> e \<noteq> []"
  by (auto simp: check_week_def Let_def dest: validateDays_Inl
      split: if_splits option.splits json.splits sum.splits)

lemma validateWeeks_Inl: "validateWeeks ids i ws seen acc = Inl e \<Longrightarrow> e \<noteq> []"
proof (induction ws arbitrary: i seen acc)
  case Nil
  then show ?case by simp
next
  case (Cons w ws)
  show ?case
  proof (cases "check_week ids i seen w")
    case (Inl e')
    with Cons.prems have "e = e'" by simp
    with Inl show ?thesis by (simp add: check_week_Inl)
  next
    case (Inr wk)
    with Cons.prems have
      "validateWeeks ids (i + 1) ws (seen @ [week_id wk]) (acc @ [wk]) = Inl e" by simp
    then show ?thesis by (rule Cons.IH)
  qed
qed

lemma check_document_Inl: "check_document library doc = Inl e \<Longrightarrow> e \<noteq> []"
  by (auto simp: check_document_def Let_def dest: validateWeeks_Inl
      split: if_splits option.splits json.splits list.splits)

lemma validateImport_cases:
  "(\<exists>e. e \<noteq> [] \<and>
        (json_parse (importText m) = None \<or>
         (\<exists>doc. json_parse (importText m) = Some doc \<and> check_document library doc = Inl e)) \<and>
        validateImport json_parse library m =
          m \<lparr> importError := Some e, importReady := False, importWeeks := None \<rparr>) \<or>
   (\<exists>doc weeks. json_parse (importText m) = Some doc \<and>
        check_document library doc = Inr weeks \<and>
        validateImport json_parse library m =
          m \<lparr> importError := None, importReady := True, importWeeks := Some weeks \<rparr>)"
proof (cases "json_parse (importText m)")
  case None
  then have "validateImport json_parse library m =
      m \<lparr> importError := Some ''Invalid JSON. Please check formatting.'',
          importReady := False, importWeeks := None \<rparr>"
    by (simp add: validateImport_def)
  with None show ?thesis
    by (intro disjI1 exI [of _ "''Invalid JSON. Please check formatting.''"]) simp
next
  case (Some doc)
  show ?thesis
  proof (cases "check_document library doc")
    case (Inl e)
    then have "e \<noteq> []" by (rule check_document_Inl)
    moreover have "validateImport json_parse library m =
        m \<lparr> importError := Some e, importReady := False, importWeeks := None \<rparr>"
      using Some Inl by (simp add: validateImport_def)
    ultimately show ?thesis
      using Some Inl by (intro disjI1 exI [of _ e]) simp
  next
    case (Inr weeks)
    have "validateImport json_parse library m =
        m \<lparr> importError := None, importReady := True, importWeeks := Some weeks \<rparr>"
      using Some Inr by (simp add: validateImport_def)
    then show ?thesis
      using Some Inr by (intro disjI2 exI [of _ doc] exI [of _ weeks]) simp
  qed
qed

text \<open>
  The documents of the examples: six days, a duplicate weekday, an unknown workout id, and a
  valid document.
\<close>

lemmas import_example_defs =
  doc_six_days_def doc_duplicate_day_def doc_unknown_workout_def doc_valid_def six_days_def
  week_json_def day_json_def example_library_def

lemmas import_eval_defs =
  check_document_def check_week_def check_day_def isPlainObject_def object_keys_def
  get_member_def as_day_def ALL_DAYS_def Let_def

lemma week_label_0: "week_label 0 = ''Week 1''"
  by (simp add: week_label_def string_of_nat.simps digit_char_def)

lemma trim_examples: "trim ''wk1'' = ''wk1''" "trim '' Week 1 '' = ''Week 1''" "trim ''Week 1'' = ''Week 1''"
  by (simp_all add: trim_def is_space_def)

lemma six_days_rejected:
  "check_document example_library doc_six_days = Inl ''Week 1 must have exactly 7 days.''"
  by (simp add: import_example_defs import_eval_defs week_label_0 trim_examples)

lemma duplicate_day_rejected:
  "check_document example_library doc_duplicate_day =
     Inl (''Week 1 contains duplicate day '' @ quote ''Monday'' @ ''.'')"
  by (simp add: import_example_defs import_eval_defs week_label_0 trim_examples)

lemma unknown_workout_rejected:
  "check_document example_library doc_unknown_workout =
     Inl (''Week 1 day '' @ quote ''Sunday'' @ '' references missing workout ''
          @ quote ''w_gone'' @ ''.'')"
  by (simp add: import_example_defs import_eval_defs week_label_0 trim_examples)

lemma valid_accepted: "check_document example_library doc_valid = Inr valid_weeks"
  by (simp add: import_example_defs import_eval_defs week_label_0 trim_examples
      orderedDays_def valid_weeks_def)

lemma six_days_fails_listed: "\<not> passes_listed_checks example_library doc_six_days"
  by (simp add: passes_listed_checks_def week_days_ok_def day_list_def import_example_defs
      isPlainObject_def object_keys_def get_member_def)

text \<open>
  Claim C9. Let \<open>m'\<close> be the dialog state after \<^verbatim>\<open>validateImport\<close>. If the text does not parse,
  or parses to a document that fails one of the listed checks (not an object with exactly one key
  \<^verbatim>\<open>weeks\<close>; weeks not an array or empty; a week without exactly the keys id, name, days;
  duplicate week ids; a day list not of exactly 7 entries; a duplicate or invalid weekday name; a
  workout id that is not in the library), then \<open>m'\<close> holds a non-empty error message, is not ready
  and holds no weeks, and \<^verbatim>\<open>handleImport\<close> changes neither the dialog nor the parent's state.
  Whenever \<^verbatim>\<open>handleImport\<close> changes anything, the document passed every listed check and the
  callback received the whole list of normalised weeks.
\<close>

theorem C9_import_all_or_nothing:
  assumes m': "m' = validateImport json_parse library m"
  shows "(json_parse (importText m) = None \<or>
          (\<exists>doc. json_parse (importText m) = Some doc \<and> \<not> passes_listed_checks library doc)
          \<longrightarrow> (\<exists>e. importError m' = Some e \<and> e \<noteq> []) \<and> \<not> importReady m' \<and>
               importWeeks m' = None \<and>
               handleImport onRequestImportSplit (m', app) = (m', app)) \<and>
         (handleImport onRequestImportSplit (m', app) \<noteq> (m', app)
          \<longrightarrow> (\<exists>doc weeks. json_parse (importText m) = Some doc \<and>
                  passes_listed_checks library doc \<and> importWeeks m' = Some weeks \<and>
                  handleImport onRequestImportSplit (m', app) =
                    (resetImportState (m' \<lparr> importOpen := False \<rparr>),
                     onRequestImportSplit weeks app)))"
proof -
  from validateImport_cases [of json_parse m library]
  consider (rejected) e where "e \<noteq> []"
      "m' = m \<lparr> importError := Some e, importReady := False, importWeeks := None \<rparr>"
    | (accepted) doc weeks where "json_parse (importText m) = Some doc"
      "check_document library doc = Inr weeks"
      "m' = m \<lparr> importError := None, importReady := True, importWeeks := Some weeks \<rparr>"
    unfolding m' by blast
  then show ?thesis
  proof cases
    case rejected
    then show ?thesis by (simp add: handleImport_def)
  next
    case accepted
    from accepted(2) have "passes_listed_checks library doc" by (rule check_document_Inr)
    with accepted show ?thesis by (simp add: handleImport_def)
  qed
qed

theorem C9_import_all_or_nothing_witness:
  "\<not> passes_listed_checks example_library doc_six_days \<and>
   importError (validateImport (\<lambda>_. Some doc_six_days) example_library (modal_with ''six''))
     = Some ''Week 1 must have exactly 7 days.'' \<and>
   handleImport (\<lambda>weeks _. weeks)
       (validateImport (\<lambda>_. Some doc_six_days) example_library (modal_with ''six''), []) =
     (validateImport (\<lambda>_. Some doc_six_days) example_library (modal_with ''six''), []) \<and>
   passes_listed_checks example_library doc_valid \<and>
   snd (handleImport (\<lambda>weeks _. weeks)
       (validateImport (\<lambda>_. Some doc_valid) example_library (modal_with ''ok''), [])) =
     valid_weeks"
proof -
  let ?bad = "validateImport (\<lambda>_. Some doc_six_days) example_library (modal_with ''six'')"
  let ?good = "validateImport (\<lambda>_. Some doc_valid) example_library (modal_with ''ok'')"
  let ?f = "\<lambda>(weeks :: Week list) (_ :: Week list). weeks"
  have bad: "(\<lambda>_. Some doc_six_days) (importText (modal_with ''six'')) = None \<or>
     (\<exists>doc. (\<lambda>_. Some doc_six_days) (importText (modal_with ''six'')) = Some doc \<and>
            \<not> passes_listed_checks example_library doc)"
    using six_days_fails_listed by simp
  have err: "importError ?bad = Some ''Week 1 must have exactly 7 days.''"
    by (simp add: validateImport_def six_days_rejected)
  from C9_import_all_or_nothing [where json_parse = "\<lambda>_. Some doc_six_days"
      and library = example_library and m = "modal_with ''six''"
      and onRequestImportSplit = ?f and app = "[]", OF refl] bad
  have keep: "handleImport ?f (?bad, []) = (?bad, [])" by blast
  have good: "?good = (modal_with ''ok'') \<lparr> importError := None, importReady := True,
      importWeeks := Some valid_weeks \<rparr>"
    by (simp add: validateImport_def valid_accepted)
  have changed: "handleImport ?f (?good, []) \<noteq> (?good, [])"
    unfolding good by (simp add: handleImport_def modal_with_def resetImportState_def)
  from C9_import_all_or_nothing [where json_parse = "\<lambda>_. Some doc_valid"
      and library = example_library and m = "modal_with ''ok''"
      and onRequestImportSplit = ?f and app = "[]", OF refl] changed
  obtain doc weeks where "(\<lambda>_. Some doc_valid) (importText (modal_with ''ok'')) = Some doc"
    and p: "passes_listed_checks example_library doc"
    and w: "importWeeks ?good = Some weeks"
    and h: "handleImport ?f (?good, []) =
              (resetImportState (?good \<lparr> importOpen := False \<rparr>), ?f weeks [])"
    by blast
  then have "doc = doc_valid" by simp
  moreover have "weeks = valid_weeks" using w unfolding good by simp
  ultimately show ?thesis using six_days_fails_listed err keep p h by simp
qed

end
